theory Spec2Isabelle
  imports Complex_Main "HOL-Library.Char_ord" "HOL-Library.List_Lexorder" "HOL-Library.Product_Lexorder"
begin

section \<open>Symbolic expressions\<close>

text \<open>
  The symbolic engine's expression trees, restricted to what the package feeds it: numbers,
  symbols, sums and products. A number is an exact rational (a float literal such as
  \<open>1.2\<close> is read as the rational it denotes). \<open>Dummy n\<close> is the engine's anonymous symbol
  with internal index \<open>n\<close>; it is different from every named symbol and from every dummy
  of another index. A power with a positive integer exponent is a product with a repeated
  factor.
\<close>

datatype symbol = Symbol string | Dummy nat

datatype expr = Number rat | Sym symbol | Add "expr list" | Mul "expr list"

datatype error =
    NonLinearExpressionError string
  | NonLinearMatrixError string
  | NonSquareMatrixError string
  | ValueError string
  | IndexError
  | ShapeError

section \<open>The symbolic engine's operations\<close>

text \<open>
  The package builds expressions with \<open>+\<close> and \<open>*\<close> and reads them with
  \<open>as_coefficients_dict\<close> and \<open>expand\<close>. The engine evaluates a sum or a product when it
  is built: nested sums (products) are flattened, numbers are combined, like terms are
  collected, a number times a sum is distributed, and the arguments are put in a canonical
  order. The definitions below follow the engine's \<open>flatten\<close> routines on the trees above.
\<close>

subsection \<open>Canonical order of arguments\<close>

text \<open>
  The engine sorts arguments by a total order of its own; only the fact that equal
  expressions get equal argument lists can be observed. The order used here compares
  the preorder listing of the tree.
\<close>

fun sort_key_expr :: "expr \<Rightarrow> (nat \<times> rat \<times> string \<times> nat) list" where
  "sort_key_expr (Number q) = [(0, q, [], 0)]"
| "sort_key_expr (Sym (Symbol s)) = [(1, 0, s, 0)]"
| "sort_key_expr (Sym (Dummy n)) = [(2, 0, [], n)]"
| "sort_key_expr (Add xs) = (3, 0, [], length xs) # concat (map sort_key_expr xs)"
| "sort_key_expr (Mul xs) = (4, 0, [], length xs) # concat (map sort_key_expr xs)"

definition sort_args :: "expr list \<Rightarrow> expr list" where
  "sort_args xs = sort_key sort_key_expr xs"

subsection \<open>Coefficient dictionaries\<close>

text \<open>
  A dictionary with default value 0 is an association list with distinct keys;
  \<open>dict_add d k c\<close> is \<open>d[k] += c\<close> and \<open>dict_get d k\<close> is \<open>d.get(k, 0)\<close>.
\<close>

fun dict_add :: "('k \<times> rat) list \<Rightarrow> 'k \<Rightarrow> rat \<Rightarrow> ('k \<times> rat) list" where
  "dict_add [] k c = [(k, c)]"
| "dict_add ((k', v) # d) k c =
     (if k' = k then (k', v + c) # d else (k', v) # dict_add d k c)"

definition dict_get :: "('k \<times> rat) list \<Rightarrow> 'k \<Rightarrow> rat" where
  "dict_get d k = (case map_of d k of Some v \<Rightarrow> v | None \<Rightarrow> 0)"

definition dict_keys :: "('k \<times> rat) list \<Rightarrow> 'k list" where
  "dict_keys d = map fst d"

text \<open>
  \<open>as_coeff_Mul\<close> splits a term into its leading number and the rest; a number is
  itself times one, anything without a leading number is one times itself.
\<close>

fun as_coeff_Mul :: "expr \<Rightarrow> rat \<times> expr" where
  "as_coeff_Mul (Number q) = (q, Number 1)"
| "as_coeff_Mul (Mul (Number q # rest)) = (q, (case rest of [f] \<Rightarrow> f | _ \<Rightarrow> Mul rest))"
| "as_coeff_Mul e = (1, e)"

fun make_args :: "expr \<Rightarrow> expr list" where
  "make_args (Add xs) = xs"
| "make_args e = [e]"

text \<open>
  \<open>as_coefficients_dict\<close>: for every argument \<open>a\<close> of the sum (the expression itself when
  it is not a sum), \<open>c, m = a.as_coeff_Mul()\<close> and \<open>d[m] += c\<close>. (For an expression that is
  a single term with a float coefficient, old versions of the engine return the term
  itself with coefficient 1; \<open>lin_expr_coeffs\<close> adds a dummy symbol first, so that it reads
  a single term only when the term is the dummy itself.)
\<close>

definition as_coefficients_dict :: "expr \<Rightarrow> (expr \<times> rat) list" where
  "as_coefficients_dict e =
     foldl (\<lambda>d a. case as_coeff_Mul a of (c, m) \<Rightarrow> dict_add d m c) [] (make_args e)"

subsection \<open>Building sums and products\<close>

fun add_args :: "expr \<Rightarrow> expr list" where
  "add_args (Add xs) = concat (map add_args xs)"
| "add_args e = [e]"

fun mul_args :: "expr \<Rightarrow> expr list" where
  "mul_args (Mul xs) = concat (map mul_args xs)"
| "mul_args e = [e]"

text \<open>The term \<open>c * s\<close> for a collected key \<open>s\<close> with coefficient \<open>c\<close>.\<close>

definition term_of :: "expr \<Rightarrow> rat \<Rightarrow> expr" where
  "term_of s c =
     (if c = 1 then s
      else case s of Mul fs \<Rightarrow> Mul (Number c # fs) | _ \<Rightarrow> Mul [Number c, s])"

text \<open>
  One step of the collection loop of \<open>Add.flatten\<close>: a number is added to the numeric
  part, any other term adds its coefficient to the entry of its key.
\<close>

fun collect_term :: "rat \<times> (expr \<times> rat) list \<Rightarrow> expr \<Rightarrow> rat \<times> (expr \<times> rat) list" where
  "collect_term (coeff, terms) (Number q) = (coeff + q, terms)"
| "collect_term (coeff, terms) e =
     (case as_coeff_Mul e of (c, s) \<Rightarrow> (coeff, dict_add terms s c))"

text \<open>
  \<open>Add(*seq)\<close>: collect, drop the terms whose coefficient became zero, sort, put the
  number first when it is not zero; no argument left is the number 0, a single one is
  that argument.
\<close>

definition Add_eval :: "expr list \<Rightarrow> expr" where
  "Add_eval seq =
     (case foldl collect_term (0, []) (concat (map add_args seq)) of
        (coeff, terms) \<Rightarrow>
          (let newseq = sort_args (map (\<lambda>(s, c). term_of s c) (filter (\<lambda>(s, c). c \<noteq> 0) terms));
               args = (if coeff = 0 then newseq else Number coeff # newseq)
           in case args of [] \<Rightarrow> Number 0 | [t] \<Rightarrow> t | _ \<Rightarrow> Add args))"

fun is_Number :: "expr \<Rightarrow> bool" where
  "is_Number (Number q) = True"
| "is_Number e = False"

fun number_value :: "expr \<Rightarrow> rat" where
  "number_value (Number q) = q"
| "number_value e = 1"

text \<open>\<open>_keep_coeff(c, t)\<close>: the term \<open>t\<close> with its coefficient multiplied by \<open>c\<close>.\<close>

fun keep_coeff :: "rat \<Rightarrow> expr \<Rightarrow> expr" where
  "keep_coeff c (Number q) = Number (c * q)"
| "keep_coeff c t = (case as_coeff_Mul t of (d, s) \<Rightarrow> term_of s (c * d))"

text \<open>
  \<open>Mul(*seq)\<close>: the numbers are multiplied into one coefficient, the other factors are
  sorted (a repeated factor is a power); a zero coefficient gives 0, and a number times a
  single sum is distributed over the sum.
\<close>

definition Mul_eval :: "expr list \<Rightarrow> expr" where
  "Mul_eval seq =
     (let fs = concat (map mul_args seq);
          coeff = prod_list (map number_value fs);
          c_part = sort_args (filter (\<lambda>f. \<not> is_Number f) fs)
      in if coeff = 0 then Number 0
         else case c_part of
             [] \<Rightarrow> Number coeff
           | [Add ts] \<Rightarrow> if coeff = 1 then Add ts else Add_eval (map (keep_coeff coeff) ts)
           | [f] \<Rightarrow> if coeff = 1 then f else Mul [Number coeff, f]
           | _ \<Rightarrow> if coeff = 1 then Mul c_part else Mul (Number coeff # c_part))"

text \<open>The operators \<open>a + b\<close>, \<open>a * b\<close> and \<open>a - b\<close> (which is \<open>a + (-1) * b\<close>).\<close>

definition add :: "expr \<Rightarrow> expr \<Rightarrow> expr" where
  "add a b = Add_eval [a, b]"

definition mul :: "expr \<Rightarrow> expr \<Rightarrow> expr" where
  "mul a b = Mul_eval [a, b]"

definition sub :: "expr \<Rightarrow> expr \<Rightarrow> expr" where
  "sub a b = add a (mul (Number (- 1)) b)"

subsection \<open>Expansion\<close>

text \<open>
  \<open>expand\<close> multiplies every product of sums out and collects the result: the expression
  becomes a sum of monomials with distinct symbol parts. \<open>monomials\<close> lists the products
  of the fully distributed expression, each as its symbols and its coefficient.
\<close>

definition mul_monomials ::
  "(symbol list \<times> rat) list \<Rightarrow> (symbol list \<times> rat) list \<Rightarrow> (symbol list \<times> rat) list" where
  "mul_monomials p q = concat (map (\<lambda>(m1, c1). map (\<lambda>(m2, c2). (m1 @ m2, c1 * c2)) q) p)"

fun monomials :: "expr \<Rightarrow> (symbol list \<times> rat) list" where
  "monomials (Number q) = [([], q)]"
| "monomials (Sym s) = [([s], 1)]"
| "monomials (Add xs) = concat (map monomials xs)"
| "monomials (Mul xs) = foldr (\<lambda>x p. mul_monomials (monomials x) p) xs [([], 1)]"

definition expand :: "expr \<Rightarrow> expr" where
  "expand e = Add_eval (map (\<lambda>(m, c). Mul_eval (Number c # map Sym m)) (monomials e))"

subsection \<open>Symbols of an expression, fresh dummies\<close>

fun free_symbols :: "expr \<Rightarrow> symbol set" where
  "free_symbols (Number q) = {}"
| "free_symbols (Sym s) = {s}"
| "free_symbols (Add xs) = (\<Union>x\<in>set xs. free_symbols x)"
| "free_symbols (Mul xs) = (\<Union>x\<in>set xs. free_symbols x)"

text \<open>
  \<open>Dummy()\<close> takes the next value of the engine's global counter, which is above the index
  of every dummy made before: the new dummy differs from every symbol of the arguments.
  \<open>dummy_bound\<close> is an index above those of the dummies among some symbols.
\<close>

fun dummy_index :: "symbol \<Rightarrow> nat" where
  "dummy_index (Dummy n) = Suc n"
| "dummy_index (Symbol s) = 0"

fun dummy_bound :: "expr \<Rightarrow> nat" where
  "dummy_bound (Number q) = 0"
| "dummy_bound (Sym s) = dummy_index s"
| "dummy_bound (Add xs) = foldr max (map dummy_bound xs) 0"
| "dummy_bound (Mul xs) = foldr max (map dummy_bound xs) 0"

definition new_Dummy :: "expr \<Rightarrow> symbol list \<Rightarrow> symbol" where
  "new_Dummy e variables = Dummy (max (dummy_bound e) (foldr max (map dummy_index variables) 0))"

section \<open>Matrices\<close>

text \<open>
  A matrix is the list of its rows. \<open>shape\<close> reads the number of rows and the length of the
  first row; a matrix without rows is 0 x 0.
\<close>

type_synonym 'a matrix = "'a list list"

definition rows :: "'a matrix \<Rightarrow> nat" where
  "rows M = length M"

definition cols :: "'a matrix \<Rightarrow> nat" where
  "cols M = (case M of [] \<Rightarrow> 0 | r # _ \<Rightarrow> length r)"

definition is_matrix :: "'a matrix \<Rightarrow> bool" where
  "is_matrix M = list_all (\<lambda>r. length r = cols M) M"

definition entry :: "'a matrix \<Rightarrow> nat \<Rightarrow> nat \<Rightarrow> 'a" where
  "entry M i j = M ! i ! j"

text \<open>\<open>matrix[a:b, a:b]\<close>: rows and columns \<open>a, ..., b - 1\<close>.\<close>

definition slice :: "'a matrix \<Rightarrow> nat \<Rightarrow> nat \<Rightarrow> 'a matrix" where
  "slice M a b = map (\<lambda>r. take (b - a) (drop a r)) (take (b - a) (drop a M))"

section \<open>Diagonal blocks (lm.py)\<close>

text \<open>
  The \<open>for l in range(n-1, c, -1)\<close> loop of \<open>get_diag_block_idxs\<close>, over the list of the
  values \<open>l\<close> still to visit. It returns the value \<open>l\<close> is left with and the list \<open>b\<close>:
  a nonzero entry at \<open>(l, c)\<close> or \<open>(c, l)\<close> leaves the loop (\<open>break\<close>), and reaching
  \<open>l = c + 1\<close> without one appends \<open>l\<close> to \<open>b\<close>.
\<close>

fun for_l :: "expr matrix \<Rightarrow> nat \<Rightarrow> nat list \<Rightarrow> nat \<Rightarrow> nat list \<Rightarrow> nat \<times> nat list" where
  "for_l M c [] l b = (l, b)"
| "for_l M c (l' # ls) l b =
     (if entry M l' c \<noteq> Number 0 \<or> entry M c l' \<noteq> Number 0 then (l', b)
      else if l' = c + 1 then for_l M c ls l' (b @ [l'])
      else for_l M c ls l' b)"

text \<open>\<open>range(n-1, c, -1)\<close> is \<open>n - 1, n - 2, ..., c + 1\<close>.\<close>

definition range_down :: "nat \<Rightarrow> nat \<Rightarrow> nat list" where
  "range_down n c = rev [c + 1 ..< n]"

lemma for_l_member:
  "ls \<noteq> [] \<Longrightarrow> fst (for_l M c ls l b) \<in> set ls"
proof (induction ls arbitrary: l b)
  case Nil
  then show ?case by simp
next
  case (Cons l' ls)
  show ?case
  proof (cases "ls = []")
    case True
    then show ?thesis by simp
  next
    case False
    then show ?thesis using Cons.IH by simp
  qed
qed

lemma for_l_advances:
  assumes "c + 1 < n" and "for_l M c (range_down n c) l b = (l', b')"
  shows "c < l' \<and> l' < n"
proof -
  have "range_down n c \<noteq> []" using assms(1) by (simp add: range_down_def)
  from for_l_member [OF this, of M c l b] assms(2)
  have "l' \<in> set (range_down n c)" by simp
  then show ?thesis by (auto simp: range_down_def)
qed

text \<open>
  The \<open>while c < n-1\<close> loop. The indices are natural numbers, so the test is written
  \<open>c + 1 < n\<close> (for \<open>n = 0\<close> the source compares with \<open>-1\<close>). The range is not empty
  whenever the body runs, so \<open>l\<close> is always assigned by the inner loop.
\<close>

function while_c :: "expr matrix \<Rightarrow> nat \<Rightarrow> nat \<Rightarrow> nat list \<Rightarrow> nat list" where
  "while_c M n c b =
     (if c + 1 < n
      then (case for_l M c (range_down n c) c b of (l, b') \<Rightarrow> while_c M n l b')
      else b)"
  by pat_completeness auto
termination
proof (relation "measure (\<lambda>(M, n, c, b). n - c)", goal_cases)
  case 1
  show ?case by simp
next
  case (2 M n c b l b')
  then have "for_l M c (range_down n c) c b = (l, b')" by simp
  from for_l_advances [OF 2(1) this] show ?case by auto
qed

declare while_c.simps [simp del]

definition get_diag_block_idxs :: "expr matrix \<Rightarrow> error + nat list" where
  "get_diag_block_idxs M =
     (if rows M \<noteq> cols M then Inl (NonSquareMatrixError ''matrix must be square'')
      else Inr (while_c M (rows M) 0 [] @ [rows M]))"

definition split_by_diag_blocks :: "expr matrix \<Rightarrow> error + expr matrix list" where
  "split_by_diag_blocks M =
     (case get_diag_block_idxs M of
        Inl e \<Rightarrow> Inl e
      | Inr idxs \<Rightarrow> Inr (map (\<lambda>(a, b). slice M a b) (zip (0 # butlast idxs) idxs)))"


text \<open>
  Column \<open>c\<close> is linked to index \<open>l\<close> when the test of the inner loop succeeds there;
  a matrix is dense when none of its entries is the literal zero.
\<close>

definition linked :: "expr matrix \<Rightarrow> nat \<Rightarrow> nat \<Rightarrow> bool" where
  "linked M c l = (entry M l c \<noteq> Number 0 \<or> entry M c l \<noteq> Number 0)"

definition dense :: "expr matrix \<Rightarrow> bool" where
  "dense M = list_all (\<lambda>i. list_all (\<lambda>j. entry M i j \<noteq> Number 0) [0 ..< cols M]) [0 ..< rows M]"

definition square :: "'a matrix \<Rightarrow> bool" where
  "square M = (is_matrix M \<and> rows M = cols M)"

definition symmetric :: "'a matrix \<Rightarrow> bool" where
  "symmetric M = list_all (\<lambda>i. list_all (\<lambda>j. entry M i j = entry M j i) [0 ..< rows M]) [0 ..< rows M]"

text \<open>
  The matrix with the blocks \<open>Bs\<close> along its diagonal, in order, and the literal zero
  everywhere else.
\<close>

fun block_diag :: "expr matrix list \<Rightarrow> expr matrix" where
  "block_diag [] = []"
| "block_diag (B # Bs) =
     map (\<lambda>r. r @ replicate (cols (block_diag Bs)) (Number 0)) B
     @ map (\<lambda>r. replicate (cols B) (Number 0) @ r) (block_diag Bs)"

text \<open>
  \<open>far M c\<close> is the largest index after \<open>c\<close> that \<open>c\<close> is linked to, the one the inner loop
  stops at, and \<open>c\<close> itself when there is none. A matrix is irreducible when each cut
  \<open>0 < p < n\<close> of its indices is crossed by a link, from an index before \<open>p\<close> to one from \<open>p\<close>
  on: it is not the diagonal concatenation of two smaller blocks. Its links are nested
  when no index between \<open>c\<close> and \<open>far M c\<close> is linked to an index after \<open>far M c\<close>.
\<close>

definition far :: "expr matrix \<Rightarrow> nat \<Rightarrow> nat" where
  "far M c = (case find (linked M c) (range_down (rows M) c) of Some l \<Rightarrow> l | None \<Rightarrow> c)"

definition irreducible :: "expr matrix \<Rightarrow> bool" where
  "irreducible M =
     list_all (\<lambda>p. list_ex (\<lambda>i. list_ex (\<lambda>j. linked M i j) [p ..< rows M]) [0 ..< p]) [1 ..< rows M]"

definition nested :: "expr matrix \<Rightarrow> bool" where
  "nested M =
     list_all (\<lambda>c. list_all (\<lambda>a. far M a \<le> far M c) [c + 1 ..< far M c]) [0 ..< rows M]"

definition ones2 :: "expr matrix" where
  "ones2 = [[Number 1, Number 2], [Number 2, Number 3]]"

definition eye2 :: "expr matrix" where
  "eye2 = [[Number 1, Number 0], [Number 0, Number 1]]"

definition one1 :: "expr matrix" where
  "one1 = [[Number 5]]"

text \<open>
  A matrix with zeros that is irreducible and has nested links, and an irreducible matrix
  whose links are not nested: index 1, between 0 and 2, is linked to 3.
\<close>

definition arrow3 :: "expr matrix" where
  "arrow3 =
     [[Number 4, Number 1, Number 1], [Number 1, Number 4, Number 0], [Number 1, Number 0, Number 4]]"

definition skip4 :: "expr matrix" where
  "skip4 =
     [[Number 1, Number 0, Number 7, Number 0], [Number 0, Number 2, Number 0, Number 9],
      [Number 7, Number 0, Number 3, Number 0], [Number 0, Number 9, Number 0, Number 4]]"

section \<open>Linear expressions and matrices (lm.py)\<close>

text \<open>
  Python floats: a finite binary64 number, read as the rational it denotes, or one of the
  two infinities.
\<close>

datatype pyfloat = Finite rat | PosInf | NegInf

text \<open>\<open>int.bit_length()\<close> of a positive integer, and \<open>0\<close> below.\<close>

function bit_length :: "int \<Rightarrow> int" where
  "bit_length n = (if n \<le> 0 then 0 else 1 + bit_length (n div 2))"
  by pat_completeness auto

termination
  by (relation "measure nat") auto

declare bit_length.simps [simp del]

text \<open>
  \<open>ilog2 x\<close> is the exponent of the leading bit of a positive rational \<open>x\<close>: the integer
  \<open>k\<close> with \<open>2^k \<le> x < 2^(k+1)\<close>. \<open>round_half_even x\<close> is the integer nearest to \<open>x\<close>, the
  even one of two that are equally near.
\<close>

definition ilog2 :: "rat \<Rightarrow> int" where
  "ilog2 x =
     (case quotient_of x of (p, d) \<Rightarrow>
        let e0 = bit_length p - bit_length d
        in if 2 powi e0 \<le> x then e0 else e0 - 1)"

definition round_half_even :: "rat \<Rightarrow> int" where
  "round_half_even x =
     (let f = \<lfloor>x\<rfloor>; d = x - of_int f
      in if d < 1 / 2 then f else if 1 / 2 < d then f + 1 else if even f then f else f + 1)"

text \<open>\<open>round_to_bits prec x\<close> rounds \<open>x\<close> to \<open>prec\<close> significant bits, to nearest.\<close>

definition round_to_bits :: "int \<Rightarrow> rat \<Rightarrow> rat" where
  "round_to_bits prec x =
     (if x = 0 then 0
      else let u = 2 powi (ilog2 \<bar>x\<bar> - (prec - 1)) in of_int (round_half_even (x / u)) * u)"

text \<open>
  \<open>float(c)\<close> of a number \<open>c\<close> of the engine, which is \<open>mlib.to_float(c._as_mpf_val(53))\<close>:
  the number is rounded to 53 significant bits and the result converted to a binary64
  float, which is an infinity from \<open>2^1024\<close> on, and a multiple of \<open>2^-1074\<close>, the nearest
  one, below \<open>2^-1022\<close>.
\<close>

definition py_float :: "rat \<Rightarrow> pyfloat" where
  "py_float q =
     (let r = round_to_bits 53 q
      in if r = 0 then Finite 0
         else let e = ilog2 \<bar>r\<bar>
           in if 1024 \<le> e then (if 0 < r then PosInf else NegInf)
              else if e < - 1022
              then Finite (of_int (round_half_even (r / 2 powi (- 1074))) * 2 powi (- 1074))
              else Finite r)"

definition quote :: string where
  "quote = [CHR 0x27]"

definition msg_linear_expr :: string where
  "msg_linear_expr =
     quote @ ''linear_expr'' @ quote @ '' must be linear w.r.t. '' @ quote @ ''variables'' @ quote"

definition msg_linear_matrix :: string where
  "msg_linear_matrix =
     quote @ ''linear_matrix'' @ quote @ '' must be composed of linear expressions w.r.t. ''
     @ quote @ ''variables'' @ quote"

text \<open>The last two statements of \<open>lin_expr_coeffs\<close>: the constant and the coefficients.\<close>

definition read_coeffs :: "(expr \<times> rat) list \<Rightarrow> symbol list \<Rightarrow> pyfloat list \<times> pyfloat" where
  "read_coeffs coeff_dict variables =
     (let const = py_float (dict_get coeff_dict (Number 1));
          coeffs = map (\<lambda>x. py_float (dict_get coeff_dict (Sym x))) variables
      in (coeffs, const))"

definition lin_expr_coeffs :: "expr \<Rightarrow> symbol list \<Rightarrow> error + (pyfloat list \<times> pyfloat)" where
  "lin_expr_coeffs linear_expr variables =
     (let dummy = Sym (new_Dummy linear_expr variables);
          ok_set = set (map Sym variables) \<union> set [Number 1, dummy];
          expr = add dummy linear_expr;
          coeff_dict = as_coefficients_dict expr
      in if set (dict_keys coeff_dict) \<subseteq> ok_set then Inr (read_coeffs coeff_dict variables)
         else
           (let expr = expand expr;
                coeff_dict = as_coefficients_dict expr
            in if set (dict_keys coeff_dict) \<subseteq> ok_set
               then Inr (read_coeffs coeff_dict variables)
               else Inl (NonLinearExpressionError msg_linear_expr)))"

text \<open>
  Numeric arrays: \<open>zeros r c\<close> is \<open>np.zeros((r, c))\<close> and \<open>set_entry A (i, j) v\<close> is the
  array after \<open>A[i, j] = v\<close>.
\<close>

definition zeros :: "nat \<Rightarrow> nat \<Rightarrow> pyfloat matrix" where
  "zeros r c = replicate r (replicate c (Finite 0))"

definition set_entry :: "'a matrix \<Rightarrow> nat \<times> nat \<Rightarrow> 'a \<Rightarrow> 'a matrix" where
  "set_entry A elem v = A[fst elem := (A ! fst elem)[snd elem := v]]"

text \<open>
  The body of the loop over the cells in \<open>lm_sym_to_coeffs\<close>, on the state
  \<open>(coeffs, consts)\<close>: a \<open>NonLinearExpressionError\<close> of a cell is caught and
  \<open>NonLinearMatrixError\<close> raised in its place, which ends the call; otherwise the constant and the coefficient of each variable
  are written at the cell's place.
\<close>

fun for_elem ::
  "expr matrix \<Rightarrow> symbol list \<Rightarrow> (nat \<times> nat) list \<Rightarrow> pyfloat matrix list \<times> pyfloat matrix
   \<Rightarrow> error + (pyfloat matrix list \<times> pyfloat matrix)" where
  "for_elem lm variables [] (coeffs, consts) = Inr (coeffs, consts)"
| "for_elem lm variables (elem # elems) (coeffs, consts) =
     (case lin_expr_coeffs (entry lm (fst elem) (snd elem)) variables of
        Inl (NonLinearExpressionError m) \<Rightarrow> Inl (NonLinearMatrixError msg_linear_matrix)
      | Inl e \<Rightarrow> Inl e
      | Inr (coeffs_elem, c) \<Rightarrow>
          for_elem lm variables elems
            (foldl (\<lambda>cs i. cs[i := set_entry (cs ! i) elem (coeffs_elem ! i)])
               coeffs [0 ..< length variables],
             set_entry consts elem c))"

text \<open>\<open>[(i, j) for i in range(lm.rows) for j in range(lm.cols)]\<close>\<close>

definition all_cells :: "'a matrix \<Rightarrow> (nat \<times> nat) list" where
  "all_cells lm = concat (map (\<lambda>i. map (\<lambda>j. (i, j)) [0 ..< cols lm]) [0 ..< rows lm])"

definition lm_sym_to_coeffs ::
  "expr matrix \<Rightarrow> symbol list \<Rightarrow> error + (pyfloat matrix list \<times> pyfloat matrix)" where
  "lm_sym_to_coeffs linear_matrix variables =
     (let lm = linear_matrix;
          consts = zeros (rows lm) (cols lm);
          coeffs = map (\<lambda>i. zeros (rows lm) (cols lm)) [0 ..< length variables]
      in for_elem lm variables (all_cells lm) (coeffs, consts))"

text \<open>
  Matrices of the engine: \<open>ImmutableMatrix(A)\<close> of a matrix of numbers, a scalar times a
  matrix, and the sum of two matrices, which needs equal shapes. The entries of \<open>A\<close> are
  finite numbers, floats among them, each read as the rational it denotes.
\<close>

definition ImmutableMatrix :: "rat matrix \<Rightarrow> expr matrix" where
  "ImmutableMatrix A = map (map Number) A"

definition scalar_mul :: "expr \<Rightarrow> expr matrix \<Rightarrow> expr matrix" where
  "scalar_mul x A = map (map (\<lambda>e. mul x e)) A"

definition shape :: "'a matrix \<Rightarrow> nat \<times> nat" where
  "shape M = (rows M, cols M)"

definition matrix_add :: "expr matrix \<Rightarrow> expr matrix \<Rightarrow> error + expr matrix" where
  "matrix_add A B =
     (if shape A \<noteq> shape B then Inl ShapeError
      else Inr (map (\<lambda>(r, s). map (\<lambda>(a, b). add a b) (zip r s)) (zip A B)))"

text \<open>
  The loop \<open>for i, x in enumerate(variables): lm += x*ImmutableMatrix(coeffs[0][i])\<close>;
  \<open>coeffs[0][i]\<close> past the end of the list is an \<open>IndexError\<close>.
\<close>

fun for_var :: "rat matrix list \<Rightarrow> (nat \<times> symbol) list \<Rightarrow> expr matrix \<Rightarrow> error + expr matrix" where
  "for_var Cs [] lm = Inr lm"
| "for_var Cs ((i, x) # rest) lm =
     (if length Cs \<le> i then Inl IndexError
      else case matrix_add lm (scalar_mul (Sym x) (ImmutableMatrix (Cs ! i))) of
             Inl e \<Rightarrow> Inl e
           | Inr lm' \<Rightarrow> for_var Cs rest lm')"

definition lm_coeffs_to_sym ::
  "rat matrix list \<times> rat matrix \<Rightarrow> symbol list \<Rightarrow> error + expr matrix" where
  "lm_coeffs_to_sym coeffs variables =
     for_var (fst coeffs) (zip [0 ..< length variables] variables) (ImmutableMatrix (snd coeffs))"

text \<open>A matrix with the cell \<open>x*y\<close>.\<close>

definition nonlinear_example :: "expr matrix" where
  "nonlinear_example =
     [[Sym (Symbol ''x''), Number 1],
      [Number 1, mul (Sym (Symbol ''x'')) (Sym (Symbol ''y''))]]"

section \<open>Inequalities (lmi.py) and the interface to solvers (sdp.py)\<close>

text \<open>
  The four relations of lmi.py; the right-hand side is a matrix or is left out
  (\<open>rhs=0\<close>, here \<open>None\<close>). \<open>LMI\<close> is \<open>LMI_PSD\<close>.
\<close>

datatype lmi =
    LMI_PSD "expr matrix" "expr matrix option"
  | LMI_PD "expr matrix" "expr matrix option"
  | LMI_NSD "expr matrix" "expr matrix option"
  | LMI_ND "expr matrix" "expr matrix option"

text \<open>
  The greater and the lesser side of a relation, as the engine's relations give them:
  for \<open>>=\<close> and \<open>>\<close> the left-hand side is the greater one, for \<open><=\<close> and \<open><\<close> the
  right-hand side.
\<close>

fun gts :: "lmi \<Rightarrow> expr matrix option" where
  "gts (LMI_PSD l r) = Some l"
| "gts (LMI_PD l r) = Some l"
| "gts (LMI_NSD l r) = r"
| "gts (LMI_ND l r) = r"

fun lts :: "lmi \<Rightarrow> expr matrix option" where
  "lts (LMI_PSD l r) = r"
| "lts (LMI_PD l r) = r"
| "lts (LMI_NSD l r) = Some l"
| "lts (LMI_ND l r) = Some l"

fun is_strict :: "lmi \<Rightarrow> bool" where
  "is_strict (LMI_PSD l r) = False"
| "is_strict (LMI_PD l r) = True"
| "is_strict (LMI_NSD l r) = False"
| "is_strict (LMI_ND l r) = True"

definition matrix_sub :: "expr matrix \<Rightarrow> expr matrix \<Rightarrow> error + expr matrix" where
  "matrix_sub A B =
     (if shape A \<noteq> shape B then Inl ShapeError
      else Inr (map (\<lambda>(r, s). map (\<lambda>(a, b). sub a b) (zip r s)) (zip A B)))"

text \<open>
  Modelled from the spec: \<open>BaseLMI\<close> and its method \<open>canonical()\<close>, which sdp.py uses, are
  not defined in src/lmi_sdp/lmi.py. The spec has the canonical form move everything to
  one side of the relation, the other side being zero; the package's test
  \<open>test_prepare_lmi_for_sdp\<close> fixes it as the greater side minus the lesser side,
  positive (semi)definite, for all four relations.
\<close>

definition canonical :: "lmi \<Rightarrow> error + lmi" where
  "canonical r =
     (case (case (gts r, lts r) of
              (Some g, None) \<Rightarrow> Inr g
            | (Some g, Some l) \<Rightarrow> matrix_sub g l
            | (None, Some l) \<Rightarrow> Inr (scalar_mul (Number (- 1)) l)
            | (None, None) \<Rightarrow> Inl ShapeError) of
        Inl e \<Rightarrow> Inl e
      | Inr diff \<Rightarrow> Inr (if is_strict r then LMI_PD diff None else LMI_PSD diff None))"

text \<open>
  What \<open>prepare_lmi_for_sdp\<close> is given: an inequality or a bare matrix, or a list of them.
\<close>

datatype lmi_or_matrix = An_LMI lmi | A_Matrix "expr matrix"

datatype lmi_arg = Single lmi_or_matrix | Several "lmi_or_matrix list"

text \<open>A list comprehension or loop whose body may raise: the first error ends it.\<close>

fun map_result :: "('a \<Rightarrow> error + 'b) \<Rightarrow> 'a list \<Rightarrow> error + 'b list" where
  "map_result f [] = Inr []"
| "map_result f (x # xs) =
     (case f x of
        Inl e \<Rightarrow> Inl e
      | Inr y \<Rightarrow> (case map_result f xs of Inl e \<Rightarrow> Inl e | Inr ys \<Rightarrow> Inr (y # ys)))"

text \<open>The body of the first loop: \<open>lm = lmi.canonical().gts\<close>, a bare matrix being \<open>LMI(lmi)\<close>.\<close>

definition canonical_gts :: "lmi_or_matrix \<Rightarrow> error + expr matrix" where
  "canonical_gts a =
     (let lmi = (case a of A_Matrix m \<Rightarrow> LMI_PSD m None | An_LMI r \<Rightarrow> r)
      in case canonical lmi of
           Inl e \<Rightarrow> Inl e
         | Inr c \<Rightarrow> (case gts c of Some lm \<Rightarrow> Inr lm | None \<Rightarrow> Inl ShapeError))"

definition prepare_lmi_for_sdp ::
  "lmi_arg \<Rightarrow> symbol list \<Rightarrow> bool \<Rightarrow> error + (pyfloat matrix list \<times> pyfloat matrix) list" where
  "prepare_lmi_for_sdp lmi variables optimize_by_diag_blocks =
     (let lmis = (case lmi of Single a \<Rightarrow> [a] | Several as \<Rightarrow> as)
      in case map_result canonical_gts lmis of
           Inl e \<Rightarrow> Inl e
         | Inr slms \<Rightarrow>
             (case (if optimize_by_diag_blocks
                    then (case map_result split_by_diag_blocks slms of
                            Inl e \<Rightarrow> Inl e
                          | Inr blocks \<Rightarrow> Inr (concat blocks))
                    else Inr slms) of
                Inl e \<Rightarrow> Inl e
              | Inr slms \<Rightarrow> map_result (\<lambda>slm. lm_sym_to_coeffs slm variables) slms))"

text \<open>\<open>str.lower()\<close> on ASCII text.\<close>

definition lower_char :: "char \<Rightarrow> char" where
  "lower_char c =
     (let n = (of_char c :: nat) in if 65 \<le> n \<and> n \<le> 90 then char_of (n + 32) else c)"

definition lower :: "string \<Rightarrow> string" where
  "lower s = map lower_char s"

definition msg_objective_type :: string where
  "msg_objective_type =
     ''objective_type must be '' @ quote @ ''maximize'' @ quote @ '' or ''
     @ quote @ ''minimize'' @ quote"

text \<open>\<open>coeffs, const = ...; return coeffs\<close>: the coefficients of a result, an error as it is.\<close>

definition coeffs_of :: "error + (pyfloat list \<times> pyfloat) \<Rightarrow> error + pyfloat list" where
  "coeffs_of r = (case r of Inl e \<Rightarrow> Inl e | Inr (coeffs, const) \<Rightarrow> Inr coeffs)"

definition prepare_objective_for_sdp ::
  "expr \<Rightarrow> symbol list \<Rightarrow> string \<Rightarrow> error + pyfloat list" where
  "prepare_objective_for_sdp objective_func variables objective_type =
     (let objective_type = lower objective_type
      in if objective_type \<in> set [''max'', ''maximize'']
         then coeffs_of (lin_expr_coeffs (mul (Number (- 1)) objective_func) variables)
         else if objective_type \<in> set [''min'', ''minimize'']
         then coeffs_of (lin_expr_coeffs objective_func variables)
         else Inl (ValueError msg_objective_type))"

text \<open>The floats that the literals \<open>1.2\<close> and \<open>3.4\<close> denote.\<close>

definition float_1_2 :: rat where
  "float_1_2 = 5404319552844595 / 4503599627370496"

definition float_3_4 :: rat where
  "float_3_4 = 7656119366529843 / 2251799813685248"

text \<open>The objective \<open>1.2 + x - 3.4*y\<close> and the variables \<open>[x, y, z]\<close> of the package's test.\<close>

definition objective_example :: expr where
  "objective_example =
     sub (add (Number float_1_2) (Sym (Symbol ''x''))) (mul (Number float_3_4) (Sym (Symbol ''y'')))"

definition xyz :: "symbol list" where
  "xyz = [Symbol ''x'', Symbol ''y'', Symbol ''z'']"

section \<open>Notions used in the statements\<close>

text \<open>
  The expression \<open>a0 + a1*x1 + ... + an*xn\<close>, built with the engine's operators from left
  to right.
\<close>

definition affine :: "rat \<Rightarrow> rat list \<Rightarrow> symbol list \<Rightarrow> expr" where
  "affine a0 as xs = foldl (\<lambda>e (a, x). add e (mul (Number a) (Sym x))) (Number a0) (zip as xs)"

text \<open>
  A term is simple when it is a number, a symbol or a number times a symbol; an
  expression is simple when its terms are. \<open>coeff_sum xs k\<close> adds the coefficients that the
  terms \<open>xs\<close> have at the key \<open>k\<close>, and \<open>term_sum ps k\<close> the coefficients \<open>a\<close> of the
  pairs \<open>(a, x)\<close> of \<open>ps\<close> whose symbol \<open>x\<close> is \<open>k\<close>.
\<close>

fun simple_term :: "expr \<Rightarrow> bool" where
  "simple_term (Number q) = True"
| "simple_term (Sym s) = True"
| "simple_term (Mul [Number c, Sym s]) = True"
| "simple_term e = False"

definition simple :: "expr \<Rightarrow> bool" where
  "simple e = list_all simple_term (make_args e)"

definition coeff_sum :: "expr list \<Rightarrow> expr \<Rightarrow> rat" where
  "coeff_sum xs k =
     sum_list (map (\<lambda>a. if snd (as_coeff_Mul a) = k then fst (as_coeff_Mul a) else 0) xs)"

definition term_sum :: "(rat \<times> symbol) list \<Rightarrow> expr \<Rightarrow> rat" where
  "term_sum ps k = sum_list (map (\<lambda>(a, x). if k = Sym x then a else 0) ps)"

text \<open>The \<open>r\<close> x \<open>c\<close> matrix with the entry \<open>f (i, j)\<close> at \<open>(i, j)\<close>.\<close>

definition matrix_of :: "nat \<Rightarrow> nat \<Rightarrow> (nat \<times> nat \<Rightarrow> 'a) \<Rightarrow> 'a matrix" where
  "matrix_of r c f = map (\<lambda>i. map (\<lambda>j. f (i, j)) [0 ..< c]) [0 ..< r]"

text \<open>
  The binary64 numbers among the rationals: zero, and below \<open>2^1024\<close> the multiples of the
  unit in the last place, which is \<open>2^(k - 52)\<close> for a number with the leading bit \<open>2^k\<close>, and
  \<open>2^-1074\<close> for the numbers under \<open>2^-1022\<close>.
\<close>

definition binary64 :: "rat \<Rightarrow> bool" where
  "binary64 q =
     (q = 0 \<or>
      (let k = ilog2 \<bar>q\<bar>; t = q / 2 powi (max (k - 52) (- 1074))
       in k < 1024 \<and> of_int \<lfloor>t\<rfloor> = t))"

text \<open>
  The coefficient matrices and the constant matrix of the package's test of the round trip,
  with the floats \<open>1.2\<close> and \<open>3.4\<close>.
\<close>

definition test_coeffs :: "rat matrix list" where
  "test_coeffs = [[[0, 1], [0, 3]], [[0, 0], [float_3_4, - (9 / 2)]], [[0, 0], [0, 1]]]"

definition test_consts :: "rat matrix" where
  "test_consts = [[float_1_2, 0], [0, float_1_2]]"

section \<open>Properties of the block boundaries\<close>

lemma for_l_find:
  "c + 1 \<notin> set (butlast ls) \<Longrightarrow>
   for_l M c ls l b =
     (case find (linked M c) ls of
        Some l' \<Rightarrow> (l', b)
      | None \<Rightarrow> if ls = [] then (l, b)
                else if last ls = c + 1 then (c + 1, b @ [c + 1]) else (last ls, b))"
proof (induction ls arbitrary: l b)
  case Nil
  then show ?case by simp
next
  case (Cons l' ls)
  show ?case
  proof (cases "linked M c l'")
    case True
    then show ?thesis by (simp add: linked_def)
  next
    case False
    show ?thesis
    proof (cases "ls = []")
      case True
      with False show ?thesis by (simp add: linked_def)
    next
      case ne: False
      with Cons.prems have "l' \<noteq> c + 1" "c + 1 \<notin> set (butlast ls)" by auto
      with False ne Cons.IH [of l' b] show ?thesis
        by (simp add: linked_def split: option.splits)
    qed
  qed
qed

lemma for_l_range:
  assumes "c + 1 < n"
  shows "for_l M c (range_down n c) l b =
     (case find (linked M c) (range_down n c) of
        Some l' \<Rightarrow> (l', b) | None \<Rightarrow> (c + 1, b @ [c + 1]))"
proof -
  have r: "range_down n c = rev [c + 2 ..< n] @ [c + 1]"
    using assms by (simp add: range_down_def upt_conv_Cons)
  have "c + 1 \<notin> set (butlast (range_down n c))" by (simp add: r)
  from for_l_find [OF this] show ?thesis by (simp add: r split: option.splits)
qed

lemma while_c_sorted:
  "sorted_wrt (<) b \<Longrightarrow> \<forall>x\<in>set b. x \<le> c \<and> x < n \<Longrightarrow>
   sorted_wrt (<) (while_c M n c b) \<and> (\<forall>x\<in>set (while_c M n c b). x < n)"
proof (induction M n c b rule: while_c.induct)
  case (1 M n c b)
  show ?case
  proof (cases "c + 1 < n")
    case False
    then show ?thesis using "1.prems" by (simp add: while_c.simps [of M n c b])
  next
    case True
    obtain l b' where lb: "for_l M c (range_down n c) c b = (l, b')" by fastforce
    from for_l_advances [OF True lb] have cl: "c < l" "l < n" by auto
    have b': "b' = b \<or> (b' = b @ [c + 1] \<and> l = c + 1)"
      using lb for_l_range [OF True, of M c b] by (auto split: option.splits)
    have s: "sorted_wrt (<) b'" using b' "1.prems" by (auto simp: sorted_wrt_append less_Suc_eq_le)
    have m: "\<forall>x\<in>set b'. x \<le> l \<and> x < n" using b' "1.prems" cl True
      by (auto intro: le_SucI order_trans [OF _ less_imp_le])
    have eq: "while_c M n c b = while_c M n l b'"
      using True lb by (subst while_c.simps) simp
    from "1.IH" [OF True lb [symmetric] s m] show ?thesis
      unfolding eq .
  qed
qed

lemma while_c_stop: "\<not> c + 1 < n \<Longrightarrow> while_c M n c b = b"
  by (subst while_c.simps) simp

lemma while_c_step:
  "c + 1 < n \<Longrightarrow> for_l M c (range_down n c) c b = (l, b') \<Longrightarrow>
   while_c M n c b = while_c M n l b'"
  by (subst while_c.simps) simp

lemma slice_whole:
  assumes "is_matrix M" and "rows M = cols M"
  shows "slice M 0 (rows M) = M"
proof -
  have "\<forall>r\<in>set M. length r = rows M"
    using assms by (simp add: is_matrix_def list_all_iff)
  then have "map (\<lambda>r. take (rows M) r) M = M"
    by (simp add: map_idI)
  then show ?thesis by (simp add: slice_def rows_def)
qed

lemma get_diag_block_idxs_sorted:
  assumes "rows M = cols M"
  shows "\<exists>bs. get_diag_block_idxs M = Inr bs \<and> sorted_wrt (<) bs \<and> bs \<noteq> [] \<and> last bs = rows M"
proof -
  from while_c_sorted [of "[]" 0 "rows M" M]
  have "sorted_wrt (<) (while_c M (rows M) 0 [])"
    and "\<forall>x\<in>set (while_c M (rows M) 0 []). x < rows M" by simp_all
  then have "sorted_wrt (<) (while_c M (rows M) 0 [] @ [rows M])"
    by (simp add: sorted_wrt_append)
  then show ?thesis using assms by (simp add: get_diag_block_idxs_def)
qed

text \<open>
  C6. On every square matrix \<open>get_diag_block_idxs\<close> returns (the loops are total
  functions): the list of boundaries is strictly increasing and its last element is the
  dimension \<open>n\<close>; and each pass of the \<open>while\<close> loop leaves the inner loop with a value
  \<open>l\<close> strictly greater than the cursor \<open>c\<close>, which is the next cursor.
\<close>

theorem get_diag_block_idxs_boundaries:
  assumes "rows M = cols M"
  shows "(\<exists>bs. get_diag_block_idxs M = Inr bs \<and> sorted_wrt (<) bs \<and> bs \<noteq> [] \<and> last bs = rows M)
       \<and> (\<forall>c l b. c + 1 < rows M \<longrightarrow> c < fst (for_l M c (range_down (rows M) c) l b))"
proof
  show "\<exists>bs. get_diag_block_idxs M = Inr bs \<and> sorted_wrt (<) bs \<and> bs \<noteq> [] \<and> last bs = rows M"
    by (rule get_diag_block_idxs_sorted [OF assms])
next
  show "\<forall>c l b. c + 1 < rows M \<longrightarrow> c < fst (for_l M c (range_down (rows M) c) l b)"
  proof (intro allI impI)
    fix c l b
    assume lt: "c + 1 < rows M"
    obtain l' b' where "for_l M c (range_down (rows M) c) l b = (l', b')" by fastforce
    with for_l_advances [OF lt this] show "c < fst (for_l M c (range_down (rows M) c) l b)"
      by simp
  qed
qed

lemma dense_iff: "dense M = (\<forall>i<rows M. \<forall>j<cols M. entry M i j \<noteq> Number 0)"
  by (auto simp: dense_def list_all_iff)

lemma symmetric_iff: "symmetric M = (\<forall>i<rows M. \<forall>j<rows M. entry M i j = entry M j i)"
  by (auto simp: symmetric_def list_all_iff)

lemma dense_single_block:
  assumes "is_matrix M" and "rows M = cols M" and "dense M"
  shows "get_diag_block_idxs M = Inr [rows M]"
proof (cases "1 < rows M")
  case False
  then have "while_c M (rows M) 0 [] = []" by (simp add: while_c_stop)
  then show ?thesis using assms(2) by (simp add: get_diag_block_idxs_def)
next
  case True
  let ?n = "rows M"
  have r: "range_down ?n 0 = (?n - 1) # rev [1 ..< ?n - 1]"
  proof -
    have "[0 + 1 ..< ?n] = [1 ..< ?n - 1] @ [?n - 1]"
      using True by (metis Suc_diff_1 add_0 less_Suc_eq_le less_imp_le_nat less_trans upt_Suc_append zero_less_one One_nat_def)
    then show ?thesis by (simp add: range_down_def)
  qed
  have "entry M (?n - 1) 0 \<noteq> Number 0"
    using assms(2) True assms(3) [unfolded dense_iff] by simp
  then have "for_l M 0 (range_down ?n 0) 0 [] = (?n - 1, [])" by (simp add: r)
  with True have "while_c M ?n 0 [] = while_c M ?n (?n - 1) []"
    by (simp add: while_c_step)
  also have "\<dots> = []" by (simp add: while_c_stop)
  finally show ?thesis using assms(2) by (simp add: get_diag_block_idxs_def)
qed

text \<open>
  C7. On a 1 x 1 matrix the \<open>while\<close> loop does not run (whatever the entry is) and the
  result is the matrix itself as the only block; a square matrix none of whose entries is
  the literal zero is returned whole, as a single block.
\<close>

theorem split_by_diag_blocks_edge_cases:
  "while_c [[e]] 1 0 [] = [] \<and> split_by_diag_blocks [[e]] = Inr [[[e]]]
   \<and> (is_matrix M \<and> rows M = cols M \<and> dense M \<longrightarrow> split_by_diag_blocks M = Inr [M])"
proof (intro conjI impI)
  show "while_c [[e]] 1 0 [] = []" by (simp add: while_c_stop)
  then show "split_by_diag_blocks [[e]] = Inr [[[e]]]"
    by (simp add: split_by_diag_blocks_def get_diag_block_idxs_def rows_def cols_def slice_def)
next
  assume a: "is_matrix M \<and> rows M = cols M \<and> dense M"
  then have "get_diag_block_idxs M = Inr [rows M]" by (simp add: dense_single_block)
  moreover from a have "is_matrix M" and "rows M = cols M" by simp_all
  then have "slice M 0 (rows M) = M" by (rule slice_whole)
  ultimately show "split_by_diag_blocks M = Inr [M]"
    by (simp add: split_by_diag_blocks_def)
qed

theorem split_by_diag_blocks_edge_cases_witness:
  "is_matrix ones2 \<and> rows ones2 = cols ones2 \<and> dense ones2 \<and> split_by_diag_blocks ones2 = Inr [ones2]"
proof -
  have h: "is_matrix ones2 \<and> rows ones2 = cols ones2 \<and> dense ones2"
    by code_simp
  with split_by_diag_blocks_edge_cases [of "Number 0" ones2] show ?thesis by simp
qed

theorem get_diag_block_idxs_boundaries_witness:
  "rows ones2 = cols ones2
   \<and> (\<exists>bs. get_diag_block_idxs ones2 = Inr bs \<and> sorted_wrt (<) bs \<and> bs \<noteq> [] \<and> last bs = rows ones2)
   \<and> 0 + 1 < rows ones2
   \<and> 0 < fst (for_l ones2 0 (range_down (rows ones2) 0) 0 [])"
proof -
  have h: "rows ones2 = cols ones2" by (simp add: ones2_def rows_def cols_def)
  have lt: "0 + 1 < rows ones2" by (simp add: ones2_def rows_def)
  from get_diag_block_idxs_boundaries [OF h] h lt show ?thesis by blast
qed

section \<open>Splitting a block-diagonal matrix\<close>

lemma for_l_acc:
  "c + 1 < n \<Longrightarrow> for_l M c (range_down n c) l b =
     (fst (for_l M c (range_down n c) l []), b @ snd (for_l M c (range_down n c) l []))"
  by (simp add: for_l_range split: option.splits)

lemma while_c_acc: "while_c M n c b = b @ while_c M n c []"
proof (induction "n - c" arbitrary: c b rule: less_induct)
  case less
  show ?case
  proof (cases "c + 1 < n")
    case False
    then show ?thesis by (simp add: while_c_stop)
  next
    case True
    obtain l e where f: "for_l M c (range_down n c) c [] = (l, e)" by fastforce
    have g: "for_l M c (range_down n c) c b = (l, b @ e)"
      using f for_l_acc [OF True, of M c b] by simp
    from for_l_advances [OF True f] have d: "n - l < n - c" by auto
    have "while_c M n c b = while_c M n l (b @ e)" by (rule while_c_step [OF True g])
    also have "\<dots> = (b @ e) @ while_c M n l []" by (rule less [OF d])
    also have "\<dots> = b @ while_c M n l e" using less [OF d, of e] by simp
    also have "\<dots> = b @ while_c M n c []" using while_c_step [OF True f] by simp
    finally show ?thesis .
  qed
qed


lemma find_append_none:
  "\<forall>x\<in>set xs. \<not> P x \<Longrightarrow> find P (xs @ ys) = find P ys"
  by (induction xs) auto

lemma find_cong_set:
  "\<forall>x\<in>set xs. P x = Q x \<Longrightarrow> find P xs = find Q xs"
  by (induction xs) auto

lemma find_map_shift:
  "\<forall>x\<in>set xs. P (f x) = Q x \<Longrightarrow> find P (map f xs) = map_option f (find Q xs)"
  by (induction xs) auto

lemma range_down_split:
  "c + 1 < m \<Longrightarrow> m \<le> n \<Longrightarrow> range_down n c = rev [m ..< n] @ range_down m c"
proof -
  assume a: "c + 1 < m" "m \<le> n"
  then have "[c + 1 ..< n] = [c + 1 ..< m] @ [m ..< n]"
    by (metis less_imp_le_nat upt_add_eq_append le_Suc_ex)
  then show ?thesis by (simp add: range_down_def)
qed

lemma range_down_shift:
  "range_down (m + n) (m + c) = map (\<lambda>x. x + m) (range_down n c)"
proof -
  have "[m + c + 1 ..< m + n] = map (\<lambda>x. x + m) [c + 1 ..< n]"
    by (rule nth_equalityI) (auto simp: add.commute)
  then show ?thesis by (simp add: range_down_def rev_map)
qed

lemma while_c_shift:
  assumes e3: "\<forall>i<n'. \<forall>j<n'. entry M (m + i) (m + j) = entry M' i j"
  shows "while_c M (m + n') (m + c) [] = map (\<lambda>x. x + m) (while_c M' n' c [])"
proof (induction "n' - c" arbitrary: c rule: less_induct)
  case less
  show ?case
  proof (cases "c + 1 < n'")
    case False
    then show ?thesis by (simp add: while_c_stop)
  next
    case True
    then have T': "(m + c) + 1 < m + n'" by simp
    obtain l e where f: "for_l M' c (range_down n' c) c [] = (l, e)" by fastforce
    from for_l_advances [OF True f] have cl: "c < l" "l < n'" by auto
    have lk: "\<forall>x\<in>set (range_down n' c). linked M (m + c) (x + m) = linked M' c x"
      using e3 True by (auto simp: range_down_def linked_def add.commute)
    have fd: "find (linked M (m + c)) (range_down (m + n') (m + c))
          = map_option (\<lambda>x. x + m) (find (linked M' c) (range_down n' c))"
      unfolding range_down_shift
      by (rule find_map_shift [where P = "linked M (m + c)" and Q = "linked M' c", OF lk])
    have g: "for_l M (m + c) (range_down (m + n') (m + c)) (m + c) [] = (m + l, map (\<lambda>x. x + m) e)"
      using f unfolding for_l_range [OF T'] for_l_range [OF True] fd
      by (auto split: option.splits)
    have d: "n' - l < n' - c" using cl by auto
    have "while_c M (m + n') (m + c) [] = while_c M (m + n') (m + l) (map (\<lambda>x. x + m) e)"
      by (rule while_c_step [OF T' g])
    also have "\<dots> = map (\<lambda>x. x + m) e @ while_c M (m + n') (m + l) []"
      by (rule while_c_acc)
    also have "\<dots> = map (\<lambda>x. x + m) (e @ while_c M' n' l [])"
      using less [OF d] by simp
    also have "e @ while_c M' n' l [] = while_c M' n' c []"
      using while_c_step [OF True f] while_c_acc [of M' n' l e] by simp
    finally show ?thesis .
  qed
qed

lemma while_c_prefix:
  assumes e1: "\<forall>i<m. \<forall>j<m. entry M i j = entry B i j"
    and e2: "\<forall>i<m. \<forall>j. m \<le> j \<and> j < n \<longrightarrow> entry M i j = Number 0 \<and> entry M j i = Number 0"
    and mn: "m \<le> n"
  shows "c < m \<Longrightarrow> while_c M n c [] =
     while_c B m c [] @ (if m < n then m # while_c M n m [] else [])"
proof (induction "m - c" arbitrary: c rule: less_induct)
  case less
  have nl: "\<forall>x\<in>set (rev [m ..< n]). \<not> linked M c x"
    using e2 less.prems by (auto simp: linked_def)
  show ?case
  proof (cases "c + 1 < m")
    case True
    then have Tn: "c + 1 < n" using mn by simp
    obtain l e where f: "for_l B c (range_down m c) c [] = (l, e)" by fastforce
    from for_l_advances [OF True f] have cl: "c < l" "l < m" by auto
    have lk: "\<forall>x\<in>set (range_down m c). linked M c x = linked B c x"
      using e1 True by (auto simp: range_down_def linked_def)
    have fd: "find (linked M c) (range_down n c) = find (linked B c) (range_down m c)"
      unfolding range_down_split [OF True mn] find_append_none [OF nl]
      by (rule find_cong_set [OF lk])
    have g: "for_l M c (range_down n c) c [] = (l, e)"
      using f unfolding for_l_range [OF Tn] for_l_range [OF True] fd .
    have d: "m - l < m - c" using cl by auto
    have "while_c M n c [] = while_c M n l e" by (rule while_c_step [OF Tn g])
    also have "\<dots> = e @ while_c M n l []" by (rule while_c_acc)
    also have "\<dots> = (e @ while_c B m l []) @ (if m < n then m # while_c M n m [] else [])"
      using less.hyps [OF d cl(2)] by simp
    also have "e @ while_c B m l [] = while_c B m c []"
      using while_c_step [OF True f] while_c_acc [of B m l e] by simp
    finally show ?thesis .
  next
    case False
    with less.prems have cm: "c + 1 = m" by simp
    then have b: "while_c B m c [] = []" by (simp add: while_c_stop)
    show ?thesis
    proof (cases "m < n")
      case False
      with cm b show ?thesis by (simp add: while_c_stop)
    next
      case True
      then have Tn: "c + 1 < n" using cm by simp
      have r: "range_down n c = rev [m ..< n]" using cm by (simp add: range_down_def)
      have "find (linked M c) (range_down n c) = None"
        unfolding r using nl by (simp add: find_None_iff)
      then have g: "for_l M c (range_down n c) c [] = (m, [m])"
        using cm by (simp add: for_l_range [OF Tn])
      have "while_c M n c [] = while_c M n m [m]" by (rule while_c_step [OF Tn g])
      also have "\<dots> = [m] @ while_c M n m []" by (rule while_c_acc)
      finally show ?thesis using b True by simp
    qed
  qed
qed


lemma square_rows_length:
  "square M \<Longrightarrow> r \<in> set M \<Longrightarrow> length r = rows M"
  by (simp add: square_def is_matrix_def list_all_iff)

lemma squareI:
  "(\<And>r. r \<in> set M \<Longrightarrow> length r = length M) \<Longrightarrow> square M"
  by (cases M) (auto simp: square_def is_matrix_def list_all_iff rows_def cols_def)

lemma square_cols: "square M \<Longrightarrow> cols M = rows M"
  by (simp add: square_def)

lemma square_block_diag:
  "\<forall>B\<in>set Bs. square B \<Longrightarrow> square (block_diag Bs)"
proof (induction Bs)
  case Nil
  show ?case by (simp add: square_def is_matrix_def rows_def cols_def)
next
  case (Cons B Bs)
  then have sq: "square B" "square (block_diag Bs)" by simp_all
  show ?case
  proof (rule squareI)
    fix r assume "r \<in> set (block_diag (B # Bs))"
    then show "length r = length (block_diag (B # Bs))"
      using square_rows_length [OF sq(1)] square_rows_length [OF sq(2)]
        square_cols [OF sq(1)] square_cols [OF sq(2)]
      by (auto simp: rows_def)
  qed
qed

lemma rows_block_diag_Cons:
  "rows (block_diag (B # Bs)) = rows B + rows (block_diag Bs)"
  by (simp add: rows_def)

lemma entry_block_diag:
  assumes "square B" and "square (block_diag Bs)"
  shows "i < rows B \<Longrightarrow> j < rows B \<Longrightarrow> entry (block_diag (B # Bs)) i j = entry B i j"
    and "i < rows B \<Longrightarrow> rows B \<le> j \<Longrightarrow> j < rows B + rows (block_diag Bs) \<Longrightarrow>
         entry (block_diag (B # Bs)) i j = Number 0"
    and "i < rows B \<Longrightarrow> rows B \<le> j \<Longrightarrow> j < rows B + rows (block_diag Bs) \<Longrightarrow>
         entry (block_diag (B # Bs)) j i = Number 0"
    and "i < rows (block_diag Bs) \<Longrightarrow> j < rows (block_diag Bs) \<Longrightarrow>
         entry (block_diag (B # Bs)) (rows B + i) (rows B + j) = entry (block_diag Bs) i j"
proof -
  have lb: "\<And>i. i < rows B \<Longrightarrow> length (B ! i) = rows B"
    using square_rows_length [OF assms(1)] by (simp add: rows_def)
  have lm: "\<And>i. i < rows (block_diag Bs) \<Longrightarrow> length (block_diag Bs ! i) = rows (block_diag Bs)"
    using square_rows_length [OF assms(2)] by (simp add: rows_def)
  have cb: "cols B = rows B" and cm: "cols (block_diag Bs) = rows (block_diag Bs)"
    using assms by (simp_all add: square_cols)
  show "i < rows B \<Longrightarrow> j < rows B \<Longrightarrow> entry (block_diag (B # Bs)) i j = entry B i j"
    using lb [of i] by (simp add: entry_def rows_def nth_append)
  show "i < rows B \<Longrightarrow> rows B \<le> j \<Longrightarrow> j < rows B + rows (block_diag Bs) \<Longrightarrow>
         entry (block_diag (B # Bs)) i j = Number 0"
    using lb [of i] cm by (simp add: entry_def rows_def nth_append)
  show "i < rows B \<Longrightarrow> rows B \<le> j \<Longrightarrow> j < rows B + rows (block_diag Bs) \<Longrightarrow>
         entry (block_diag (B # Bs)) j i = Number 0"
    using cb by (simp add: entry_def rows_def nth_append)
  show "i < rows (block_diag Bs) \<Longrightarrow> j < rows (block_diag Bs) \<Longrightarrow>
         entry (block_diag (B # Bs)) (rows B + i) (rows B + j) = entry (block_diag Bs) i j"
    using cb by (simp add: entry_def rows_def nth_append)
qed

declare block_diag.simps [simp del]

lemma while_c_block_diag:
  assumes sb: "square B" and sm: "square (block_diag Bs)"
    and pos: "0 < rows B" and ne: "0 < rows (block_diag Bs)"
  shows "while_c (block_diag (B # Bs)) (rows B + rows (block_diag Bs)) 0 [] =
     while_c B (rows B) 0 [] @ rows B #
       map (\<lambda>x. x + rows B) (while_c (block_diag Bs) (rows (block_diag Bs)) 0 [])"
proof -
  let ?M = "block_diag (B # Bs)" and ?m = "rows B" and ?n' = "rows (block_diag Bs)"
  have e1: "\<forall>i<?m. \<forall>j<?m. entry ?M i j = entry B i j"
    using entry_block_diag(1) [OF sb sm] by simp
  have e2: "\<forall>i<?m. \<forall>j. ?m \<le> j \<and> j < ?m + ?n' \<longrightarrow>
      entry ?M i j = Number 0 \<and> entry ?M j i = Number 0"
    using entry_block_diag(2,3) [OF sb sm] by simp
  have e3: "\<forall>i<?n'. \<forall>j<?n'. entry ?M (?m + i) (?m + j) = entry (block_diag Bs) i j"
    using entry_block_diag(4) [OF sb sm] by simp
  have "while_c ?M (?m + ?n') 0 [] = while_c B ?m 0 [] @ ?m # while_c ?M (?m + ?n') ?m []"
    using while_c_prefix [OF e1 e2 _ pos] ne by simp
  also have "while_c ?M (?m + ?n') ?m [] = map (\<lambda>x. x + ?m) (while_c (block_diag Bs) ?n' 0 [])"
    using while_c_shift [OF e3, of 0] by simp
  finally show ?thesis .
qed

lemma slice_block_diag_head:
  assumes "square B"
  shows "slice (block_diag (B # Bs)) 0 (rows B) = B"
proof -
  have "map (\<lambda>r. take (rows B) (r @ replicate (cols (block_diag Bs)) (Number 0))) B = B"
    using square_rows_length [OF assms] by (simp add: map_idI)
  then show ?thesis by (simp add: slice_def rows_def comp_def block_diag.simps)
qed

lemma slice_block_diag_tail:
  assumes "square B"
  shows "slice (block_diag (B # Bs)) (a + rows B) (b + rows B) = slice (block_diag Bs) a b"
  using square_cols [OF assms]
  by (simp add: slice_def rows_def drop_map take_map comp_def add.commute [of a] block_diag.simps)


lemma get_diag_block_idxs_square:
  "square M \<Longrightarrow> get_diag_block_idxs M = Inr (while_c M (rows M) 0 [] @ [rows M])"
  by (simp add: get_diag_block_idxs_def square_def)

lemma split_by_diag_blocks_square:
  "square M \<Longrightarrow> split_by_diag_blocks M =
     Inr (map (\<lambda>(a, b). slice M a b)
       (zip (0 # while_c M (rows M) 0 []) (while_c M (rows M) 0 [] @ [rows M])))"
  by (simp add: split_by_diag_blocks_def get_diag_block_idxs_square butlast_append)

lemma left_whole:
  assumes "square B" and "split_by_diag_blocks B = Inr [B]"
  shows "while_c B (rows B) 0 [] = []"
proof -
  have "length (zip (0 # while_c B (rows B) 0 []) (while_c B (rows B) 0 [] @ [rows B])) = 1"
    using assms unfolding split_by_diag_blocks_square [OF assms(1)]
    by (metis Inr_inject length_map length_Cons list.size(3) One_nat_def)
  then show ?thesis by simp
qed

lemma zip_shift:
  fixes m :: nat
  shows "zip (m # map (\<lambda>x. x + m) w) (map (\<lambda>x. x + m) (w @ [n])) =
   map (\<lambda>(a, b). (a + m, b + m)) (zip (0 # w) (w @ [n]))"
proof -
  have "m # map (\<lambda>x. x + m) w = map (\<lambda>x. x + m) (0 # w)" by simp
  then show ?thesis by (simp only: zip_map_map)
qed

lemma split_block_diag_Cons:
  assumes sb: "square B" and pos: "0 < rows B" and whole: "split_by_diag_blocks B = Inr [B]"
    and sm: "square (block_diag Bs)" and ne: "0 < rows (block_diag Bs)"
    and rest: "split_by_diag_blocks (block_diag Bs) = Inr Cs"
  shows "split_by_diag_blocks (block_diag (B # Bs)) = Inr (B # Cs)"
proof -
  let ?M = "block_diag (B # Bs)" and ?M' = "block_diag Bs"
  let ?m = "rows B" and ?w = "while_c (block_diag Bs) (rows (block_diag Bs)) 0 []"
  have sM: "square ?M"
  proof (rule squareI)
    fix r assume "r \<in> set ?M"
    then show "length r = length ?M"
      using square_rows_length [OF sb] square_rows_length [OF sm]
        square_cols [OF sb] square_cols [OF sm]
      by (auto simp: rows_def block_diag.simps)
  qed
  have rM: "rows ?M = ?m + rows ?M'" by (rule rows_block_diag_Cons)
  have w: "while_c ?M (?m + rows ?M') 0 [] = ?m # map (\<lambda>x. x + ?m) ?w"
    using while_c_block_diag [OF sb sm pos ne] left_whole [OF sb whole]
    by (simp)
  have Cs: "Cs = map (\<lambda>(a, b). slice ?M' a b) (zip (0 # ?w) (?w @ [rows ?M']))"
    using rest unfolding split_by_diag_blocks_square [OF sm] by simp
  have z: "zip (0 # ?m # map (\<lambda>x. x + ?m) ?w) ((?m # map (\<lambda>x. x + ?m) ?w) @ [?m + rows ?M'])
      = (0, ?m) # map (\<lambda>(a, b). (a + ?m, b + ?m)) (zip (0 # ?w) (?w @ [rows ?M']))"
    using zip_shift [of ?m ?w "rows ?M'"] by (simp add: add.commute)
  have "split_by_diag_blocks ?M =
      Inr (slice ?M 0 ?m # map (\<lambda>(a, b). slice ?M (a + ?m) (b + ?m)) (zip (0 # ?w) (?w @ [rows ?M'])))"
    unfolding split_by_diag_blocks_square [OF sM] rM w z
    by (simp add: case_prod_unfold comp_def)
  then show ?thesis
    unfolding slice_block_diag_head [OF sb] slice_block_diag_tail [OF sb] Cs .
qed

lemma block_diag_single: "block_diag [B] = B"
  by (simp add: cols_def map_idI block_diag.simps)

lemma split_block_diag:
  assumes "Bs \<noteq> []"
    and "\<forall>B\<in>set Bs. square B \<and> 0 < rows B \<and> split_by_diag_blocks B = Inr [B]"
  shows "split_by_diag_blocks (block_diag Bs) = Inr Bs"
  using assms
proof (induction Bs rule: list_nonempty_induct)
  case (single B)
  then show ?case by (simp add: block_diag_single)
next
  case (cons B Bs)
  then have sb: "square B" "0 < rows B" "split_by_diag_blocks B = Inr [B]" by simp_all
  have sm: "square (block_diag Bs)" using cons.prems by (simp add: square_block_diag)
  obtain C Cs where "Bs = C # Cs" using cons.hyps by (cases Bs) auto
  then have ne: "0 < rows (block_diag Bs)"
    using cons.prems by (simp add: rows_block_diag_Cons)
  have "split_by_diag_blocks (block_diag Bs) = Inr Bs" using cons by simp
  from split_block_diag_Cons [OF sb sm ne this] show ?case .
qed


lemma zip_prev_sorted:
  "sorted_wrt (\<le>) (p # xs) \<Longrightarrow> (a, b) \<in> set (zip (p # butlast xs) xs) \<Longrightarrow>
   a \<le> b \<and> b \<in> set xs"
proof (induction xs arbitrary: p)
  case Nil
  then show ?case by simp
next
  case (Cons x xs)
  show ?case
  proof (cases "xs = []")
    case True
    with Cons.prems show ?thesis by simp
  next
    case False
    with Cons.prems have "(a, b) = (p, x) \<or> (a, b) \<in> set (zip (x # butlast xs) xs)" by simp
    then show ?thesis
    proof
      assume "(a, b) = (p, x)"
      with Cons.prems show ?thesis by simp
    next
      assume "(a, b) \<in> set (zip (x # butlast xs) xs)"
      with Cons.IH [of x] Cons.prems show ?thesis by simp
    qed
  qed
qed

lemma slice_square:
  assumes "square M" and "a \<le> b" and "b \<le> rows M"
  shows "square (slice M a b)" and "rows (slice M a b) = b - a"
    and "symmetric M \<Longrightarrow> symmetric (slice M a b)"
proof -
  have len: "length (slice M a b) = b - a"
    using assms by (simp add: slice_def rows_def)
  show r: "rows (slice M a b) = b - a" using len by (simp add: rows_def)
  have rl: "\<And>r. r \<in> set M \<Longrightarrow> length r = rows M"
    using square_rows_length [OF assms(1)] .
  show "square (slice M a b)"
  proof (rule squareI)
    fix r assume "r \<in> set (slice M a b)"
    then obtain r' where "r' \<in> set M" "r = take (b - a) (drop a r')"
      by (auto simp: slice_def dest!: in_set_takeD in_set_dropD)
    with rl [of r'] assms(2,3) show "length r = length (slice M a b)"
      unfolding len by simp
  qed
  have en: "\<And>i j. i < b - a \<Longrightarrow> j < b - a \<Longrightarrow> entry (slice M a b) i j = entry M (a + i) (a + j)"
  proof -
    fix i j assume ij: "i < b - a" "j < b - a"
    then have "a + i < length M" using assms(3) by (simp add: rows_def)
    then have "length (M ! (a + i)) = rows M" by (simp add: rl)
    then show "entry (slice M a b) i j = entry M (a + i) (a + j)"
      using ij assms(2,3) by (simp add: slice_def entry_def rows_def)
  qed
  show "symmetric M \<Longrightarrow> symmetric (slice M a b)"
    unfolding symmetric_iff r using en assms(3) by simp
qed

lemma split_blocks_shape:
  assumes sq: "square M" and sp: "split_by_diag_blocks M = Inr blocks" and b: "B \<in> set blocks"
  shows "square B \<and> (symmetric M \<longrightarrow> symmetric B)"
proof -
  let ?w = "while_c M (rows M) 0 []"
  from get_diag_block_idxs_sorted [of M] sq
  have st: "sorted_wrt (<) (?w @ [rows M])"
    by (simp add: get_diag_block_idxs_square square_def)
  then have le: "sorted_wrt (\<le>) (0 # ?w @ [rows M])"
    by (auto simp: sorted_wrt_append intro: sorted_wrt_mono_rel [of _ "(<)"])
  from sp b obtain a c where ac: "(a, c) \<in> set (zip (0 # ?w) (?w @ [rows M]))" "B = slice M a c"
    unfolding split_by_diag_blocks_square [OF sq] by auto
  have "a \<le> c \<and> c \<in> set (?w @ [rows M])"
    using zip_prev_sorted [OF le, of a c] ac(1) by (simp add: butlast_append)
  moreover have "\<forall>x\<in>set (?w @ [rows M]). x \<le> rows M"
    using st by (auto simp: sorted_wrt_append)
  ultimately have "a \<le> c" "c \<le> rows M" by auto
  from slice_square [OF sq this] ac(2) show ?thesis by simp
qed


text \<open>Irreducible blocks with nested links are returned whole.\<close>

lemma range_down_Suc: "range_down (Suc n) c = (if c < n then n # range_down n c else [])"
  by (simp add: range_down_def)

lemma find_range_down_Some:
  "find P (range_down n c) = Some l \<Longrightarrow> c < l \<and> l < n \<and> P l \<and> (\<forall>j. l < j \<and> j < n \<longrightarrow> \<not> P j)"
proof (induction n)
  case 0
  then show ?case by (simp add: range_down_def)
next
  case (Suc n)
  show ?case
  proof (cases "c < n")
    case False
    with Suc.prems show ?thesis by (simp add: range_down_Suc)
  next
    case True
    show ?thesis
    proof (cases "P n")
      case True
      with \<open>c < n\<close> Suc.prems show ?thesis by (auto simp: range_down_Suc)
    next
      case False
      with \<open>c < n\<close> Suc.prems have "find P (range_down n c) = Some l" by (simp add: range_down_Suc)
      from Suc.IH [OF this] False show ?thesis by (auto simp: less_Suc_eq)
    qed
  qed
qed

lemma find_range_down_None:
  "find P (range_down n c) = None \<Longrightarrow> c < j \<Longrightarrow> j < n \<Longrightarrow> \<not> P j"
  by (auto simp: find_None_iff range_down_def)

lemma far_linked:
  assumes "linked M c j" and "c < j" and "j < rows M"
  shows "find (linked M c) (range_down (rows M) c) = Some (far M c) \<and> j \<le> far M c \<and> far M c < rows M"
proof (cases "find (linked M c) (range_down (rows M) c)")
  case None
  from find_range_down_None [OF None assms(2,3)] assms(1) show ?thesis by simp
next
  case (Some l)
  from find_range_down_Some [OF Some] assms have "j \<le> l" "l < rows M"
    by (auto simp: not_less [symmetric])
  with Some show ?thesis by (simp add: far_def)
qed

lemma linked_sym: "linked M i j = linked M j i"
  by (auto simp: linked_def)

lemma irreducible_iff:
  "irreducible M = (\<forall>p. 0 < p \<and> p < rows M \<longrightarrow> (\<exists>i j. i < p \<and> p \<le> j \<and> j < rows M \<and> linked M i j))"
  by (auto simp: irreducible_def list_all_iff list_ex_iff Bex_def) 

lemma nested_iff:
  "nested M = (\<forall>c a. c < rows M \<and> c < a \<and> a < far M c \<longrightarrow> far M a \<le> far M c)"
  by (auto simp: nested_def list_all_iff)

lemma while_c_chain:
  assumes I: "irreducible M" and N: "nested M"
  shows "c < rows M \<Longrightarrow> \<forall>a<c. far M a \<le> c \<Longrightarrow> while_c M (rows M) c b = b"
proof (induction "rows M - c" arbitrary: c rule: less_induct)
  case less
  let ?n = "rows M"
  show ?case
  proof (cases "c + 1 < ?n")
    case False
    then show ?thesis by (rule while_c_stop)
  next
    case True
    from I [unfolded irreducible_iff] True
    obtain i j where ij: "i < c + 1" "c + 1 \<le> j" "j < ?n" "linked M i j"
      by (metis add_gr_0 zero_less_one)
    have "i = c"
    proof (rule ccontr)
      assume "i \<noteq> c"
      with ij(1) have ic: "i < c" by simp
      then have "i < j" using ij(2) by simp
      from far_linked [OF ij(4) this ij(3)] have "j \<le> far M i" by simp
      with less.prems(2) ic ij(2) show False by fastforce
    qed
    with ij have lk: "linked M c j" "c < j" by simp_all
    from far_linked [OF lk ij(3)]
    have f: "find (linked M c) (range_down ?n c) = Some (far M c)"
      and fj: "j \<le> far M c" and fn: "far M c < ?n" by simp_all
    let ?l = "far M c"
    have cl: "c < ?l" using lk(2) fj by simp
    have fl: "for_l M c (range_down ?n c) c b = (?l, b)"
      using for_l_range [OF True, of M c b] f by simp
    have inv: "\<forall>a<?l. far M a \<le> ?l"
    proof (intro allI impI)
      fix a assume a: "a < ?l"
      consider "a < c" | "a = c" | "c < a" by (metis nat_neq_iff)
      then show "far M a \<le> ?l"
      proof cases
        case 1
        with less.prems(2) cl show ?thesis by fastforce
      next
        case 2
        then show ?thesis by simp
      next
        case 3
        with N [unfolded nested_iff] a less.prems(1) show ?thesis by blast
      qed
    qed
    have "while_c M ?n c b = while_c M ?n ?l b" using True fl by (rule while_c_step)
    also have "\<dots> = b"
      using less.hyps [of ?l] fn cl inv by simp
    finally show ?thesis .
  qed
qed

lemma irreducible_nested_whole:
  assumes "square B" and "0 < rows B" and "irreducible B" and "nested B"
  shows "split_by_diag_blocks B = Inr [B]"
proof -
  have "while_c B (rows B) 0 [] = []"
    using while_c_chain [OF assms(3,4), of 0 "[]"] assms(2) by simp
  moreover have "slice B 0 (rows B) = B"
    using assms(1) by (intro slice_whole) (simp_all add: square_def)
  ultimately show ?thesis
    by (simp add: split_by_diag_blocks_square [OF assms(1)])
qed

lemma far_less: "c < rows M \<Longrightarrow> far M c < rows M"
proof (cases "find (linked M c) (range_down (rows M) c)")
  case None
  assume "c < rows M"
  with None show ?thesis by (simp add: far_def)
next
  case (Some l)
  from find_range_down_Some [OF Some] Some show ?thesis by (simp add: far_def)
qed

lemma far_greater: "c \<le> far M c"
proof (cases "find (linked M c) (range_down (rows M) c)")
  case None
  then show ?thesis by (simp add: far_def)
next
  case (Some l)
  from find_range_down_Some [OF Some] Some show ?thesis by (simp add: far_def)
qed

text \<open>A dense square matrix is irreducible, and its links are nested.\<close>

lemma dense_irreducible_nested:
  assumes "square M" and "dense M"
  shows "irreducible M \<and> nested M"
proof
  have d: "\<And>i j. i < rows M \<Longrightarrow> j < rows M \<Longrightarrow> linked M i j"
    using assms by (simp add: dense_iff square_def linked_def)
  show "irreducible M"
    unfolding irreducible_iff
  proof (intro allI impI)
    fix p assume p: "0 < p \<and> p < rows M"
    then have "0 < p \<and> p \<le> p \<and> p < rows M \<and> linked M 0 p" using d by simp
    then show "\<exists>i j. i < p \<and> p \<le> j \<and> j < rows M \<and> linked M i j" by blast
  qed
  show "nested M"
    unfolding nested_iff
  proof (intro allI impI)
    fix c a assume a: "c < rows M \<and> c < a \<and> a < far M c"
    let ?n = "rows M"
    have fc: "far M c < ?n" using a by (simp add: far_less)
    then have an: "a < ?n" using a by simp
    have c1: "c < ?n - 1" "?n - 1 < ?n" "c < ?n" using a fc by arith+
    have "linked M c (?n - 1)" using c1 by (intro d)
    from far_linked [OF this c1(1,2)] have "?n - 1 \<le> far M c" by simp
    moreover have "far M a < ?n" using an by (rule far_less)
    ultimately show "far M a \<le> far M c" by simp
  qed
qed

lemma split_irreducible_blocks:
  assumes "Bs \<noteq> []"
    and "\<forall>B\<in>set Bs. square B \<and> 0 < rows B \<and> irreducible B \<and> nested B"
  shows "split_by_diag_blocks (block_diag Bs) = Inr Bs"
  using assms(1)
proof (rule split_block_diag)
  show "\<forall>B\<in>set Bs. square B \<and> 0 < rows B \<and> split_by_diag_blocks B = Inr [B]"
    using assms(2) by (simp add: irreducible_nested_whole)
qed

text \<open>
  The assignment \<open>c = l\<close> moves the cursor to the farthest index linked to \<open>c\<close> and passes
  over the indices between them. In \<open>skip4\<close>, which is irreducible, the cursor goes from 0
  to 2, index 2 has no link to 3, and the boundary 3 is returned: the entries at \<open>(1, 3)\<close>
  and \<open>(3, 1)\<close> are in none of the two blocks.
\<close>

lemma split_by_diag_blocks_skipped_index:
  "square skip4 \<and> irreducible skip4 \<and> \<not> nested skip4
   \<and> entry skip4 1 3 = Number 9 \<and> entry skip4 3 1 = Number 9
   \<and> get_diag_block_idxs skip4 = Inr [3, 4]
   \<and> split_by_diag_blocks skip4 =
       Inr [[[Number 1, Number 0, Number 7], [Number 0, Number 2, Number 0],
             [Number 7, Number 0, Number 3]], [[Number 4]]]"
  by code_simp

text \<open>
  C5, as stated: for every list of square blocks, splitting their diagonal concatenation
  returns the list. It fails for a block that has diagonal blocks of its own: the 2 x 2
  identity matrix, given as the only block, is split into two 1 x 1 blocks.
\<close>

theorem split_by_diag_blocks_identity_counterexample:
  "square eye2
   \<and> split_by_diag_blocks (block_diag [eye2]) = Inr [[[Number 1]], [[Number 1]]]
   \<and> split_by_diag_blocks (block_diag [eye2]) \<noteq> Inr [eye2]"
  by code_simp

text \<open>
  C5, amended: when the list of blocks is not empty and every block is square, not empty
  and irreducible with nested links (a dense block is, and so is a 1 x 1 block),
  splitting the diagonal concatenation returns exactly the blocks, in order. And the blocks
  returned for any square matrix are square, and symmetric when the matrix is.
\<close>

theorem split_by_diag_blocks_irreducible_blocks:
  "(Bs \<noteq> [] \<and> (\<forall>B\<in>set Bs. square B \<and> 0 < rows B \<and> irreducible B \<and> nested B)
      \<longrightarrow> split_by_diag_blocks (block_diag Bs) = Inr Bs)
   \<and> (square M \<and> split_by_diag_blocks M = Inr blocks
      \<longrightarrow> (\<forall>B\<in>set blocks. square B \<and> (symmetric M \<longrightarrow> symmetric B)))"
  using split_irreducible_blocks [of Bs] split_blocks_shape [of M blocks] by blast

theorem split_by_diag_blocks_irreducible_blocks_witness:
  "[arrow3, one1, ones2] \<noteq> []
   \<and> square arrow3 \<and> 0 < rows arrow3 \<and> irreducible arrow3 \<and> nested arrow3 \<and> \<not> dense arrow3
   \<and> square one1 \<and> 0 < rows one1 \<and> irreducible one1 \<and> nested one1
   \<and> square ones2 \<and> 0 < rows ones2 \<and> irreducible ones2 \<and> nested ones2
   \<and> split_by_diag_blocks (block_diag [arrow3, one1, ones2]) = Inr [arrow3, one1, ones2]
   \<and> square (block_diag [arrow3, one1, ones2]) \<and> symmetric (block_diag [arrow3, one1, ones2])
   \<and> symmetric arrow3 \<and> symmetric one1 \<and> symmetric ones2"
proof -
  let ?Bs = "[arrow3, one1, ones2]"
  have h: "?Bs \<noteq> []"
    "square arrow3" "0 < rows arrow3" "irreducible arrow3" "nested arrow3" "\<not> dense arrow3"
    "square one1" "0 < rows one1" "irreducible one1" "nested one1"
    "square ones2" "0 < rows ones2" "irreducible ones2" "nested ones2"
    "square (block_diag ?Bs)" "symmetric (block_diag ?Bs)"
    by code_simp+
  from h have a: "\<forall>B\<in>set ?Bs. square B \<and> 0 < rows B \<and> irreducible B \<and> nested B"
    by simp
  from split_by_diag_blocks_irreducible_blocks [of ?Bs "block_diag ?Bs" ?Bs] h(1) a
  have r: "split_by_diag_blocks (block_diag ?Bs) = Inr ?Bs" by blast
  from split_by_diag_blocks_irreducible_blocks [of ?Bs "block_diag ?Bs" ?Bs] h(15,16) r
  have "\<forall>B\<in>set ?Bs. square B \<and> symmetric B" by blast
  with h r show ?thesis by simp
qed
section \<open>Floats\<close>

lemma bit_length_bounds:
  "0 < n \<Longrightarrow> 0 < bit_length n \<and> 2 ^ nat (bit_length n - 1) \<le> n \<and> n < 2 ^ nat (bit_length n)"
proof (induction n rule: bit_length.induct)
  case (1 n)
  let ?k = "n div 2"
  have bl: "bit_length n = 1 + bit_length ?k"
    using "1.prems" by (subst bit_length.simps) simp
  show ?case
  proof (cases "?k = 0")
    case True
    then have "n = 1" using "1.prems" by auto
    moreover have "bit_length 0 = 0" by (subst bit_length.simps) simp
    ultimately show ?thesis using bl by simp
  next
    case False
    then have k: "0 < ?k" using "1.prems" by auto
    from "1.IH" k "1.prems"
    have pos: "0 < bit_length ?k"
      and lo: "2 ^ nat (bit_length ?k - 1) \<le> ?k" and hi: "?k < 2 ^ nat (bit_length ?k)"
      by simp_all
    have "nat (bit_length ?k) = Suc (nat (bit_length ?k - 1))" using pos by simp
    then have e: "(2::int) ^ nat (bit_length ?k) = 2 * 2 ^ nat (bit_length ?k - 1)"
      by (simp only: power_Suc)
    have "2 ^ nat (bit_length ?k) \<le> 2 * ?k" using lo e by simp
    also have "\<dots> \<le> n" by simp
    finally have a: "2 ^ nat (bit_length n - 1) \<le> n" by (simp add: bl)
    have n1: "nat (1 + bit_length ?k) = Suc (nat (bit_length ?k))" using pos by simp
    have "n < 2 * (?k + 1)" by simp
    also have "\<dots> \<le> 2 * 2 ^ nat (bit_length ?k)" using hi by simp
    finally have b: "n < 2 ^ nat (bit_length n)" by (simp add: bl n1)
    from a b pos show ?thesis by (simp add: bl)
  qed
qed

lemma bit_length_bounds_rat:
  assumes "0 < n"
  shows "(2::rat) powi (bit_length n - 1) \<le> of_int n" and "(of_int n :: rat) < 2 powi (bit_length n)"
proof -
  from bit_length_bounds [OF assms]
  have pos: "0 < bit_length n" and lo: "2 ^ nat (bit_length n - 1) \<le> n"
    and hi: "n < 2 ^ nat (bit_length n)" by simp_all
  have "(of_int (2 ^ nat (bit_length n - 1)) :: rat) \<le> of_int n"
    using lo by (simp only: of_int_le_iff)
  then show "(2::rat) powi (bit_length n - 1) \<le> of_int n"
    using pos by (simp add: power_int_def)
  have "(of_int n :: rat) < of_int (2 ^ nat (bit_length n))"
    using hi by (simp only: of_int_less_iff)
  then show "(of_int n :: rat) < 2 powi (bit_length n)"
    using pos by (simp add: power_int_def)
qed

text \<open>\<open>ilog2\<close> is the exponent of the leading bit.\<close>

lemma ilog2_bounds:
  assumes "0 < x"
  shows "2 powi (ilog2 x) \<le> x" and "x < 2 powi (ilog2 x + 1)"
proof -
  obtain p d where pd: "quotient_of x = (p, d)" by (cases "quotient_of x")
  then have d: "0 < d" by (rule quotient_of_denom_pos)
  have x: "x = of_int p / of_int d" using pd by (rule quotient_of_div)
  have p: "0 < p" using assms d x by (simp add: zero_less_divide_iff)
  let ?P = "of_int p :: rat" and ?D = "of_int d :: rat"
  let ?bp = "bit_length p" and ?bd = "bit_length d"
  note P = bit_length_bounds_rat [OF p] and D = bit_length_bounds_rat [OF d]
  have Dpos: "0 < ?D" and Ppos: "0 < ?P" using d p by simp_all
  have two: "\<And>k. (0::rat) < 2 powi k" by simp
  have il: "ilog2 x = (if 2 powi (?bp - ?bd) \<le> x then ?bp - ?bd else ?bp - ?bd - 1)"
    by (simp add: ilog2_def pd Let_def)
  have lo: "2 powi (?bp - ?bd - 1) \<le> x"
  proof -
    have "(2::rat) powi (?bp - ?bd - 1) = 2 powi (?bp - 1) / 2 powi ?bd"
      by (simp add: power_int_diff)
    also have "\<dots> \<le> ?P / 2 powi ?bd"
      using P(1) two by (simp add: divide_right_mono)
    also have "\<dots> \<le> ?P / ?D"
      using D(2) Dpos Ppos by (simp add: frac_le)
    finally show ?thesis by (simp add: x)
  qed
  have hi: "x < 2 powi (?bp - ?bd + 1)"
  proof -
    have "x = ?P / ?D" by (rule x)
    also have "\<dots> < 2 powi ?bp / ?D"
      using P(2) Dpos by (simp add: divide_strict_right_mono)
    also have "\<dots> \<le> 2 powi ?bp / 2 powi (?bd - 1)"
      using D(1) two [of "?bd - 1"] two [of ?bp] Dpos by (intro divide_left_mono mult_pos_pos) simp_all
    also have "\<dots> = 2 powi (?bp - ?bd + 1)"
      by (simp add: power_int_diff power_int_add field_simps)
    finally show ?thesis .
  qed
  show "2 powi (ilog2 x) \<le> x" using lo by (simp add: il)
  show "x < 2 powi (ilog2 x + 1)" using hi by (auto simp add: il not_le)
qed

lemma round_half_even_of_int: "round_half_even (of_int k) = k"
  by (simp add: round_half_even_def)

lemma rescale_exact:
  assumes "k \<le> e"
  shows "of_int (round_half_even (of_int m * 2 powi e / 2 powi k)) * 2 powi k = (of_int m * 2 powi e :: rat)"
proof -
  have "(of_int m * 2 powi e / 2 powi k :: rat) = of_int m * 2 powi (e - k)"
    by (simp add: power_int_diff)
  also have "\<dots> = of_int (m * 2 ^ nat (e - k))"
    using assms by (simp add: power_int_def)
  finally have "of_int (round_half_even (of_int m * 2 powi e / 2 powi k)) = (of_int m * 2 powi e / 2 powi k :: rat)"
    by (simp only: round_half_even_of_int)
  then show ?thesis by simp
qed

text \<open>A binary64 number is its own float.\<close>

lemma py_float_binary64:
  assumes "binary64 q"
  shows "py_float q = Finite q"
proof (cases "q = 0")
  case True
  then show ?thesis by (simp add: py_float_def round_to_bits_def)
next
  case False
  define k where "k = ilog2 \<bar>q\<bar>"
  define e where "e = max (k - 52) (- 1074)"
  define m where "m = \<lfloor>q / 2 powi e\<rfloor>"
  from assms False have k: "k < 1024" and t: "of_int m = q / 2 powi e"
    by (simp_all add: binary64_def Let_def k_def e_def m_def)
  have q: "q = of_int m * 2 powi e" by (simp add: t)
  have e1: "k - 52 \<le> e" and e2: "- 1074 \<le> e" by (simp_all add: e_def)
  have r: "round_to_bits 53 q = q"
    using rescale_exact [OF e1, of m] False
    by (simp add: round_to_bits_def Let_def k_def [symmetric] q [symmetric])
  have sub: "of_int (round_half_even (q / 2 powi (- 1074))) * 2 powi (- 1074) = q"
    using rescale_exact [OF e2, of m] by (simp only: q [symmetric])
  show ?thesis
    unfolding py_float_def r Let_def k_def [symmetric] using False k sub
    by (simp del: power_int_minus)
qed

text \<open>The numbers \<open>m * 2^e\<close> with \<open>|m| < 2^53\<close> and \<open>-1074 \<le> e \<le> 971\<close> are binary64 numbers.\<close>

lemma ilog2_scaled_less:
  assumes m: "m \<noteq> 0" "\<bar>m\<bar> < 2 ^ 53"
  shows "ilog2 \<bar>of_int m * 2 powi e\<bar> < e + 53"
proof -
  let ?q = "of_int m * 2 powi e :: rat"
  have pos: "0 < \<bar>?q\<bar>" using m(1) by simp
  have "(of_int \<bar>m\<bar> :: rat) < of_int (2 ^ 53)" using m(2) by (simp only: of_int_less_iff)
  then have "(of_int \<bar>m\<bar> :: rat) < 2 powi 53" by simp
  then have "\<bar>?q\<bar> < 2 powi 53 * 2 powi e"
    by (simp add: abs_mult)
  also have "\<dots> = 2 powi (e + 53)" by (simp add: power_int_add)
  finally have lt: "2 powi (ilog2 \<bar>?q\<bar>) < (2::rat) powi (e + 53)"
    using ilog2_bounds(1) [OF pos] by simp
  show ?thesis
  proof (rule ccontr)
    assume "\<not> ilog2 \<bar>?q\<bar> < e + 53"
    then have "e + 53 \<le> ilog2 \<bar>?q\<bar>" by simp
    then have "(2::rat) powi (e + 53) \<le> 2 powi (ilog2 \<bar>?q\<bar>)"
      by (rule power_int_increasing) simp
    with lt show False by simp
  qed
qed

lemma binary64_dyadic:
  assumes m: "\<bar>m\<bar> < 2 ^ 53" and e: "- 1074 \<le> e" "e \<le> 971"
  shows "binary64 (of_int m * 2 powi e)"
proof (cases "m = 0")
  case True
  then show ?thesis by (simp add: binary64_def)
next
  case False
  let ?q = "of_int m * 2 powi e :: rat"
  define k where "k = ilog2 \<bar>?q\<bar>"
  define e' where "e' = max (k - 52) (- 1074)"
  have k: "k < e + 53" unfolding k_def using False m by (rule ilog2_scaled_less)
  then have le: "e' \<le> e" using e(1) by (simp add: e'_def)
  have "?q / 2 powi e' = of_int m * 2 powi (e - e')" by (simp add: power_int_diff)
  also have "\<dots> = of_int (m * 2 ^ nat (e - e'))" using le by (simp add: power_int_def)
  finally have "of_int \<lfloor>?q / 2 powi e'\<rfloor> = ?q / 2 powi e'" by (simp only: floor_of_int)
  moreover have "k < 1024" using k e(2) by simp
  ultimately show ?thesis
    unfolding binary64_def Let_def k_def [symmetric] e'_def [symmetric] by simp
qed

lemma map_py_float_binary64: "list_all binary64 as \<Longrightarrow> map py_float as = map Finite as"
  by (induction as) (simp_all add: py_float_binary64)

section \<open>Extraction from a linear expression\<close>

lemma dict_get_dict_add:
  "dict_get (dict_add d k c) k' = dict_get d k' + (if k = k' then c else 0)"
  by (induction d) (auto simp: dict_get_def)

lemma dict_keys_dict_add_list:
  "dict_keys (dict_add d k c) = (if k \<in> set (dict_keys d) then dict_keys d else dict_keys d @ [k])"
  by (induction d) (force simp: dict_keys_def)+

lemma dict_keys_dict_add:
  "set (dict_keys (dict_add d k c)) = insert k (set (dict_keys d))"
  by (auto simp: dict_keys_dict_add_list)

lemma distinct_dict_add:
  "distinct (dict_keys d) \<Longrightarrow> distinct (dict_keys (dict_add d k c))"
  by (simp add: dict_keys_dict_add_list)

lemma dict_get_empty: "dict_get [] k = 0"
  by (simp add: dict_get_def)

lemma dict_get_notin: "k \<notin> set (dict_keys d) \<Longrightarrow> dict_get d k = 0"
  by (simp add: dict_get_def dict_keys_def map_of_eq_None_iff [THEN iffD2])

text \<open>The dictionary read by \<open>as_coefficients_dict\<close>, for any starting dictionary.\<close>

lemma foldl_dict_add_get:
  "dict_get (foldl (\<lambda>d a. case as_coeff_Mul a of (c, m) \<Rightarrow> dict_add d m c) d0 xs) k
     = dict_get d0 k + coeff_sum xs k"
  by (induction xs arbitrary: d0)
     (auto simp: coeff_sum_def dict_get_dict_add split: prod.splits)

lemma foldl_dict_add_keys:
  "set (dict_keys (foldl (\<lambda>d a. case as_coeff_Mul a of (c, m) \<Rightarrow> dict_add d m c) d0 xs))
     = set (dict_keys d0) \<union> (\<lambda>a. snd (as_coeff_Mul a)) ` set xs"
  by (induction xs arbitrary: d0)
     (auto simp: dict_keys_dict_add split: prod.splits)

lemma dict_get_as_coefficients_dict:
  "dict_get (as_coefficients_dict e) k = coeff_sum (make_args e) k"
  by (simp add: as_coefficients_dict_def foldl_dict_add_get dict_get_empty)

lemma dict_keys_as_coefficients_dict:
  "set (dict_keys (as_coefficients_dict e)) = (\<lambda>a. snd (as_coeff_Mul a)) ` set (make_args e)"
  using foldl_dict_add_keys [of "[]" "make_args e"]
  by (simp add: as_coefficients_dict_def dict_keys_def)

lemma coeff_sum_append: "coeff_sum (xs @ ys) k = coeff_sum xs k + coeff_sum ys k"
  by (simp add: coeff_sum_def)

lemma coeff_sum_Nil: "coeff_sum [] k = 0"
  by (simp add: coeff_sum_def)

lemma coeff_sum_Cons:
  "coeff_sum (a # xs) k =
     (if snd (as_coeff_Mul a) = k then fst (as_coeff_Mul a) else 0) + coeff_sum xs k"
  by (simp add: coeff_sum_def)

lemma sum_list_insort_key:
  fixes f :: "'a \<Rightarrow> rat"
  shows "sum_list (map f (insort_key g x xs)) = f x + sum_list (map f xs)"
  by (induction xs) auto

lemma sum_list_sort_key:
  fixes f :: "'a \<Rightarrow> rat"
  shows "sum_list (map f (sort_key g xs)) = sum_list (map f xs)"
  by (induction xs) (auto simp: sum_list_insort_key)

lemma coeff_sum_sort_args: "coeff_sum (sort_args xs) k = coeff_sum xs k"
  by (simp add: coeff_sum_def sort_args_def sum_list_sort_key)

lemma set_sort_args: "set (sort_args xs) = set xs"
  by (simp add: sort_args_def)

lemma length_sort_args: "length (sort_args xs) = length xs"
  by (simp add: sort_args_def)


lemma simple_term_cases:
  assumes "simple_term a"
  obtains (num) q where "a = Number q"
    | (sym) s where "a = Sym s"
    | (scaled) c s where "a = Mul [Number c, Sym s]"
  using assms by (cases a rule: simple_term.cases) auto

lemma simple_term_key:
  "simple_term a \<Longrightarrow> snd (as_coeff_Mul a) = Number 1 \<or> snd (as_coeff_Mul a) \<in> Sym ` free_symbols a"
  by (erule simple_term_cases) auto

lemma add_args_simple: "simple e \<Longrightarrow> add_args e = make_args e"
proof (cases e)
  case (Add xs)
  assume "simple e"
  then have "\<forall>x\<in>set xs. add_args x = [x]"
    unfolding simple_def Add by (auto simp: list_all_iff elim!: simple_term_cases)
  then have "concat (map add_args xs) = xs"
    by (induction xs) auto
  then show ?thesis by (simp add: Add)
qed simp_all

lemma simple_make_args: "simple e \<Longrightarrow> list_all simple_term (make_args e)"
  by (simp add: simple_def)

lemma free_symbols_make_args: "(\<Union>a\<in>set (make_args e). free_symbols a) = free_symbols e"
  by (cases e) simp_all

text \<open>The collection loop on terms that are numbers, symbols or a number times a symbol.\<close>

lemma collect_simple:
  "list_all simple_term xs \<Longrightarrow> set (dict_keys t0) \<subseteq> range Sym \<Longrightarrow> distinct (dict_keys t0) \<Longrightarrow>
   foldl collect_term (c0, t0) xs = (c', t') \<Longrightarrow>
   c' = c0 + coeff_sum xs (Number 1)
   \<and> (\<forall>s. dict_get t' (Sym s) = dict_get t0 (Sym s) + coeff_sum xs (Sym s))
   \<and> set (dict_keys t') \<subseteq> set (dict_keys t0) \<union> Sym ` (\<Union>a\<in>set xs. free_symbols a)
   \<and> distinct (dict_keys t')"
proof (induction xs arbitrary: c0 t0)
  case Nil
  then show ?case by (simp add: coeff_sum_Nil)
next
  case (Cons a xs)
  have st: "simple_term a" and rest: "list_all simple_term xs"
    using Cons.prems(1) by simp_all
  obtain c1 t1 where step: "collect_term (c0, t0) a = (c1, t1)" by fastforce
  have fold: "foldl collect_term (c1, t1) xs = (c', t')"
    using Cons.prems(4) step by simp
  have a1: "c1 = c0 + (if snd (as_coeff_Mul a) = Number 1 then fst (as_coeff_Mul a) else 0)"
    and a2: "\<forall>s. dict_get t1 (Sym s) = dict_get t0 (Sym s)
        + (if snd (as_coeff_Mul a) = Sym s then fst (as_coeff_Mul a) else 0)"
    and a3: "set (dict_keys t1) \<subseteq> set (dict_keys t0) \<union> Sym ` free_symbols a"
    and a4: "distinct (dict_keys t1)"
    using st step Cons.prems(3)
    by (auto elim!: simple_term_cases simp: dict_get_dict_add dict_keys_dict_add distinct_dict_add)
  have k1: "set (dict_keys t1) \<subseteq> range Sym" using a3 Cons.prems(2) by auto
  from Cons.IH [OF rest k1 a4 fold]
  have i1: "c' = c1 + coeff_sum xs (Number 1)"
    and i2: "\<forall>s. dict_get t' (Sym s) = dict_get t1 (Sym s) + coeff_sum xs (Sym s)"
    and i3: "set (dict_keys t') \<subseteq> set (dict_keys t1) \<union> Sym ` (\<Union>a\<in>set xs. free_symbols a)"
    and i4: "distinct (dict_keys t')" by simp_all
  have "set (dict_keys t') \<subseteq> set (dict_keys t0) \<union> Sym ` (\<Union>a\<in>set (a # xs). free_symbols a)"
    using i3 a3 by (simp add: image_Un) blast
  then show ?case using i1 i2 i4 a1 a2 by (simp add: coeff_sum_Cons)
qed


lemma term_of_Sym:
  "c \<noteq> 0 \<Longrightarrow> simple_term (term_of (Sym s) c) \<and> as_coeff_Mul (term_of (Sym s) c) = (c, Sym s)
     \<and> free_symbols (term_of (Sym s) c) = {s}"
  by (simp add: term_of_def)

lemma coeff_sum_other:
  "list_all simple_term xs \<Longrightarrow> k \<noteq> Number 1 \<Longrightarrow> k \<notin> range Sym \<Longrightarrow> coeff_sum xs k = 0"
  by (induction xs) (auto simp: coeff_sum_Nil coeff_sum_Cons elim!: simple_term_cases)

text \<open>The terms rebuilt from the collected dictionary.\<close>

lemma rebuilt_terms:
  "set (dict_keys d) \<subseteq> range Sym \<Longrightarrow> distinct (dict_keys d) \<Longrightarrow>
   ns = map (\<lambda>(s, c). term_of s c) (filter (\<lambda>(s, c). c \<noteq> 0) d) \<Longrightarrow>
   list_all simple_term ns
   \<and> (\<forall>s. coeff_sum ns (Sym s) = dict_get d (Sym s))
   \<and> coeff_sum ns (Number 1) = 0
   \<and> Sym ` (\<Union>a\<in>set ns. free_symbols a) \<subseteq> set (dict_keys d)"
proof (induction d arbitrary: ns)
  case Nil
  then show ?case by (simp add: coeff_sum_Nil dict_get_empty)
next
  case (Cons p d)
  obtain k c where p: "p = (k, c)" by (cases p)
  from Cons.prems(1) obtain s where k: "k = Sym s" by (auto simp: dict_keys_def p)
  have kd: "set (dict_keys d) \<subseteq> range Sym" "distinct (dict_keys d)" "k \<notin> set (dict_keys d)"
    using Cons.prems(1,2) by (auto simp: dict_keys_def p)
  let ?ms = "map (\<lambda>(s, c). term_of s c) (filter (\<lambda>(s, c). c \<noteq> 0) d)"
  from Cons.IH [OF kd(1,2) refl]
  have i1: "list_all simple_term ?ms"
    and i2: "\<forall>s. coeff_sum ?ms (Sym s) = dict_get d (Sym s)"
    and i3: "coeff_sum ?ms (Number 1) = 0"
    and i4: "Sym ` (\<Union>a\<in>set ?ms. free_symbols a) \<subseteq> set (dict_keys d)" by simp_all
  have g: "\<And>s'. dict_get (p # d) (Sym s') = (if s' = s then c else dict_get d (Sym s'))"
    using kd(3) by (simp add: dict_get_def p k)
  have z: "dict_get d (Sym s) = 0" using kd(3) k by (simp add: dict_get_notin)
  have ks: "set (dict_keys (p # d)) = insert k (set (dict_keys d))"
    by (simp add: dict_keys_def p)
  show ?case
  proof (cases "c = 0")
    case True
    then have ns: "ns = ?ms" using Cons.prems(3) by (simp add: p)
    have "Sym ` (\<Union>a\<in>set ns. free_symbols a) \<subseteq> set (dict_keys (p # d))"
      unfolding ns using i4 ks by blast
    moreover have "\<forall>s'. coeff_sum ns (Sym s') = dict_get (p # d) (Sym s')"
      unfolding ns using i2 g z True by simp
    ultimately show ?thesis using i1 i3 unfolding ns by simp
  next
    case False
    then have ns: "ns = term_of (Sym s) c # ?ms" using Cons.prems(3) by (simp add: p k)
    note t = term_of_Sym [OF False, of s]
    have "(\<Union>a\<in>set ns. free_symbols a) = insert s (\<Union>a\<in>set ?ms. free_symbols a)"
      unfolding ns using t by simp
    then have "Sym ` (\<Union>a\<in>set ns. free_symbols a) \<subseteq> set (dict_keys (p # d))"
      unfolding ks k using i4 by (simp only: image_insert) blast
    moreover have "\<forall>s'. coeff_sum ns (Sym s') = dict_get (p # d) (Sym s')"
      unfolding ns using i2 g t z by (simp add: coeff_sum_Cons)
    moreover have "coeff_sum ns (Number 1) = 0"
      unfolding ns using i3 t by (simp add: coeff_sum_Cons)
    moreover have "list_all simple_term ns" unfolding ns using i1 t by simp
    ultimately show ?thesis by simp
  qed
qed

lemma final_args:
  assumes "list_all simple_term args"
    and "R = (case args of [] \<Rightarrow> Number 0 | [t] \<Rightarrow> t | _ \<Rightarrow> Add args)"
  shows "simple R" and "coeff_sum (make_args R) k = coeff_sum args k"
    and "free_symbols R = (\<Union>a\<in>set args. free_symbols a)"
proof -
  consider "args = []" | t where "args = [t]" | a b cs where "args = a # b # cs"
    by (cases args rule: list.exhaust [case_product list.exhaust]) (auto, metis list.exhaust)
  then have "simple R \<and> coeff_sum (make_args R) k = coeff_sum args k
      \<and> free_symbols R = (\<Union>a\<in>set args. free_symbols a)"
  proof cases
    case 1
    then show ?thesis using assms(2) by (simp add: simple_def coeff_sum_def)
  next
    case 2
    then have "R = t" "simple_term t" using assms by simp_all
    then show ?thesis using 2
      by (auto simp: simple_def elim!: simple_term_cases)
  next
    case 3
    then have "R = Add args" using assms(2) by simp
    then show ?thesis using assms(1) by (simp add: simple_def)
  qed
  then show "simple R" and "coeff_sum (make_args R) k = coeff_sum args k"
    and "free_symbols R = (\<Union>a\<in>set args. free_symbols a)" by simp_all
qed


text \<open>A sum of expressions whose terms are numbers, symbols and numbers times a symbol.\<close>

lemma Add_eval_simple:
  assumes "\<forall>e\<in>set seq. simple e"
  shows "simple (Add_eval seq)"
    and "coeff_sum (make_args (Add_eval seq)) k = coeff_sum (concat (map make_args seq)) k"
    and "free_symbols (Add_eval seq) \<subseteq> (\<Union>e\<in>set seq. free_symbols e)"
proof -
  let ?xs = "concat (map make_args seq)"
  have xs: "concat (map add_args seq) = ?xs"
    using assms by (induction seq) (auto simp: add_args_simple)
  have sx: "list_all simple_term ?xs"
    using assms by (induction seq) (auto simp: simple_def)
  have fx: "(\<Union>a\<in>set ?xs. free_symbols a) = (\<Union>e\<in>set seq. free_symbols e)"
    by (induction seq) (simp_all add: free_symbols_make_args)
  obtain coeff terms where ct: "foldl collect_term (0, []) ?xs = (coeff, terms)" by fastforce
  from collect_simple [OF sx _ _ ct]
  have c1: "coeff = coeff_sum ?xs (Number 1)"
    and c2: "\<forall>s. dict_get terms (Sym s) = coeff_sum ?xs (Sym s)"
    and c3: "set (dict_keys terms) \<subseteq> Sym ` (\<Union>a\<in>set ?xs. free_symbols a)"
    and c4: "distinct (dict_keys terms)"
    by (simp_all add: dict_keys_def dict_get_empty)
  define ns where "ns = map (\<lambda>(s, c). term_of s c) (filter (\<lambda>(s, c). c \<noteq> 0) terms)"
  have kr: "set (dict_keys terms) \<subseteq> range Sym" using c3 by auto
  from rebuilt_terms [OF kr c4 ns_def]
  have n1: "list_all simple_term ns"
    and n2: "\<forall>s. coeff_sum ns (Sym s) = dict_get terms (Sym s)"
    and n3: "coeff_sum ns (Number 1) = 0"
    and n4: "Sym ` (\<Union>a\<in>set ns. free_symbols a) \<subseteq> set (dict_keys terms)" by simp_all
  define args where "args = (if coeff = 0 then sort_args ns else Number coeff # sort_args ns)"
  have R: "Add_eval seq = (case args of [] \<Rightarrow> Number 0 | [t] \<Rightarrow> t | _ \<Rightarrow> Add args)"
    unfolding args_def ns_def by (simp add: Add_eval_def xs ct Let_def)
  have sa: "list_all simple_term args"
    using n1 by (simp add: args_def list_all_iff set_sort_args)
  note fin = final_args [OF sa R]
  show "simple (Add_eval seq)" by (rule fin(1))
  have fa: "(\<Union>a\<in>set args. free_symbols a) = (\<Union>a\<in>set ns. free_symbols a)"
    by (simp add: args_def set_sort_args)
  have "Sym ` (\<Union>a\<in>set ns. free_symbols a) \<subseteq> Sym ` (\<Union>a\<in>set ?xs. free_symbols a)"
    using n4 c3 by (rule subset_trans)
  then have "(\<Union>a\<in>set ns. free_symbols a) \<subseteq> (\<Union>a\<in>set ?xs. free_symbols a)"
    by (simp add: inj_image_subset_iff inj_def)
  then show "free_symbols (Add_eval seq) \<subseteq> (\<Union>e\<in>set seq. free_symbols e)"
    unfolding fin(3) fa fx .
  have one: "coeff_sum args (Number 1) = coeff"
    using n3 by (simp add: args_def coeff_sum_Cons coeff_sum_sort_args)
  have sym: "\<And>s. coeff_sum args (Sym s) = coeff_sum ?xs (Sym s)"
    using n2 c2 by (simp add: args_def coeff_sum_Cons coeff_sum_sort_args)
  show "coeff_sum (make_args (Add_eval seq)) k = coeff_sum ?xs k"
  proof (cases "k = Number 1 \<or> k \<in> range Sym")
    case True
    then show ?thesis unfolding fin(2) using one c1 sym by auto
  next
    case False
    then show ?thesis unfolding fin(2)
      using coeff_sum_other [OF sa, of k] coeff_sum_other [OF sx, of k] by simp
  qed
qed


lemma dummy_index_le_foldr:
  "x \<in> set vs \<Longrightarrow> dummy_index x \<le> foldr max (map dummy_index vs) 0"
  by (induction vs) (auto simp: max_def)

lemma dummy_bound_le_foldr:
  "x \<in> set xs \<Longrightarrow> dummy_bound x \<le> foldr max (map dummy_bound xs) 0"
  by (induction xs) (auto simp: max_def)

lemma free_symbols_dummy_bound:
  "s \<in> free_symbols e \<Longrightarrow> dummy_index s \<le> dummy_bound e"
proof (induction e)
  case (Add xs)
  then obtain x where x: "x \<in> set xs" "s \<in> free_symbols x" by auto
  from Add.IH [OF x] dummy_bound_le_foldr [OF x(1)] show ?case by simp
next
  case (Mul xs)
  then obtain x where x: "x \<in> set xs" "s \<in> free_symbols x" by auto
  from Mul.IH [OF x] dummy_bound_le_foldr [OF x(1)] show ?case by simp
qed simp_all

lemma new_Dummy_fresh:
  "new_Dummy e vs \<notin> set vs" and "new_Dummy e vs \<notin> free_symbols e"
proof -
  let ?n = "max (dummy_bound e) (foldr max (map dummy_index vs) 0)"
  show "new_Dummy e vs \<notin> set vs"
  proof
    assume "new_Dummy e vs \<in> set vs"
    from dummy_index_le_foldr [OF this] show False by (simp add: new_Dummy_def)
  qed
  show "new_Dummy e vs \<notin> free_symbols e"
  proof
    assume "new_Dummy e vs \<in> free_symbols e"
    from free_symbols_dummy_bound [OF this] show False by (simp add: new_Dummy_def)
  qed
qed

lemma simple_keys:
  "simple e \<Longrightarrow>
   set (dict_keys (as_coefficients_dict e)) \<subseteq> insert (Number 1) (Sym ` free_symbols e)"
proof -
  assume s: "simple e"
  {
    fix a assume a: "a \<in> set (make_args e)"
    then have "simple_term a" using s by (simp add: simple_def list_all_iff)
    from simple_term_key [OF this] a
    have "snd (as_coeff_Mul a) \<in> insert (Number 1) (Sym ` (\<Union>a\<in>set (make_args e). free_symbols a))"
      by auto
  }
  then show ?thesis
    unfolding dict_keys_as_coefficients_dict free_symbols_make_args by auto
qed

text \<open>The result of \<open>lin_expr_coeffs\<close> on a sum of numbers and multiples of the variables.\<close>

lemma lin_expr_coeffs_simple:
  assumes "simple e" and "free_symbols e \<subseteq> set vs"
  shows "lin_expr_coeffs e vs =
     Inr (map (\<lambda>x. py_float (coeff_sum (make_args e) (Sym x))) vs,
          py_float (coeff_sum (make_args e) (Number 1)))"
proof -
  define d where "d = new_Dummy e vs"
  define ex where "ex = add (Sym d) e"
  have dv: "d \<notin> set vs" unfolding d_def by (rule new_Dummy_fresh)
  have sd: "simple (Sym d)" by (simp add: simple_def)
  have all: "\<forall>a\<in>set [Sym d, e]. simple a" using sd assms(1) by simp
  note A = Add_eval_simple [OF all]
  have sx: "simple ex" unfolding ex_def add_def by (rule A(1))
  have fx: "free_symbols ex \<subseteq> insert d (set vs)"
    unfolding ex_def add_def using A(3) assms(2) by auto
  have keys: "set (dict_keys (as_coefficients_dict ex)) \<subseteq> set (map Sym vs) \<union> set [Number 1, Sym d]"
    using simple_keys [OF sx] fx by auto
  have get: "\<And>k. dict_get (as_coefficients_dict ex) k =
      (if k = Sym d then 1 else 0) + coeff_sum (make_args e) k"
    unfolding dict_get_as_coefficients_dict ex_def add_def A(2)
    by (simp add: coeff_sum_Cons coeff_sum_append [symmetric])
  have c: "\<And>x. x \<in> set vs \<Longrightarrow> dict_get (as_coefficients_dict ex) (Sym x) = coeff_sum (make_args e) (Sym x)"
    using dv by (auto simp: get)
  have "read_coeffs (as_coefficients_dict ex) vs =
      (map (\<lambda>x. py_float (coeff_sum (make_args e) (Sym x))) vs,
       py_float (coeff_sum (make_args e) (Number 1)))"
    using c by (simp add: read_coeffs_def get Let_def)
  then show ?thesis
    using keys unfolding lin_expr_coeffs_def Let_def d_def [symmetric] ex_def [symmetric]
    by simp
qed


lemma mul_Number_Sym:
  "mul (Number a) (Sym x) = (if a = 0 then Number 0 else if a = 1 then Sym x else Mul [Number a, Sym x])"
  by (simp add: mul_def Mul_eval_def sort_args_def Let_def)

lemma mul_Sym_Number: "mul (Sym x) (Number a) = mul (Number a) (Sym x)"
  by (simp add: mul_def Mul_eval_def sort_args_def Let_def)

lemma mul_Number_Sym_simple:
  "simple (mul (Number a) (Sym x))"
  "coeff_sum (make_args (mul (Number a) (Sym x))) k = (if k = Sym x then a else 0)"
  "free_symbols (mul (Number a) (Sym x)) \<subseteq> {x}"
  by (auto simp: mul_Number_Sym simple_def coeff_sum_def)

lemma foldl_add_terms:
  "simple e0 \<Longrightarrow>
   simple (foldl (\<lambda>e (a, x). add e (mul (Number a) (Sym x))) e0 ps)
   \<and> (\<forall>k. coeff_sum (make_args (foldl (\<lambda>e (a, x). add e (mul (Number a) (Sym x))) e0 ps)) k
          = coeff_sum (make_args e0) k + term_sum ps k)
   \<and> free_symbols (foldl (\<lambda>e (a, x). add e (mul (Number a) (Sym x))) e0 ps)
       \<subseteq> free_symbols e0 \<union> snd ` set ps"
proof (induction ps arbitrary: e0)
  case Nil
  then show ?case by (simp add: term_sum_def)
next
  case (Cons p ps)
  obtain a x where p: "p = (a, x)" by (cases p)
  let ?e1 = "add e0 (mul (Number a) (Sym x))"
  have all: "\<forall>t\<in>set [e0, mul (Number a) (Sym x)]. simple t"
    using Cons.prems mul_Number_Sym_simple(1) by simp
  note A = Add_eval_simple [OF all]
  have s1: "simple ?e1" unfolding add_def by (rule A(1))
  have c1: "\<And>k. coeff_sum (make_args ?e1) k = coeff_sum (make_args e0) k + (if k = Sym x then a else 0)"
    unfolding add_def A(2) by (simp add: coeff_sum_append mul_Number_Sym_simple(2))
  have f1: "free_symbols ?e1 \<subseteq> free_symbols e0 \<union> {x}"
    unfolding add_def using A(3) mul_Number_Sym_simple(3) [of a x] by auto
  from Cons.IH [OF s1] c1 f1 show ?case
    by (auto simp: p term_sum_def)
qed

lemma term_sum_absent: "x \<notin> snd ` set ps \<Longrightarrow> term_sum ps (Sym x) = 0"
  by (induction ps) (auto simp: term_sum_def)

lemma term_sum_distinct:
  "length as = length xs \<Longrightarrow> distinct xs \<Longrightarrow>
   map (\<lambda>x. term_sum (zip as xs) (Sym x)) xs = as"
proof (induction as xs rule: list_induct2)
  case Nil
  show ?case by simp
next
  case (Cons a as x xs)
  have "x \<notin> snd ` set (zip as xs)"
    using Cons.prems by (force dest: set_zip_rightD)
  then have z: "term_sum (zip as xs) (Sym x) = 0" by (rule term_sum_absent)
  have r: "map (\<lambda>y. term_sum (zip (a # as) (x # xs)) (Sym y)) xs
      = map (\<lambda>y. term_sum (zip as xs) (Sym y)) xs"
    using Cons.prems by (auto simp: term_sum_def)
  show ?case using Cons z r by (simp add: term_sum_def)
qed

lemma term_sum_One: "term_sum ps (Number 1) = 0"
  by (induction ps) (auto simp: term_sum_def)

lemma lin_expr_coeffs_affine:
  assumes "distinct xs" and "length as = length xs"
  shows "lin_expr_coeffs (affine a0 as xs) xs = Inr (map py_float as, py_float a0)"
proof -
  have s0: "simple (Number a0)" by (simp add: simple_def)
  from foldl_add_terms [OF s0, of "zip as xs"]
  have s: "simple (affine a0 as xs)"
    and c: "\<And>k. coeff_sum (make_args (affine a0 as xs)) k
        = coeff_sum [Number a0] k + term_sum (zip as xs) k"
    and f: "free_symbols (affine a0 as xs) \<subseteq> snd ` set (zip as xs)"
    by (simp_all add: affine_def)
  have "snd ` set (zip as xs) \<subseteq> set xs" by (force dest: set_zip_rightD)
  with f have f': "free_symbols (affine a0 as xs) \<subseteq> set xs" by (rule subset_trans)
  have "map (\<lambda>x. coeff_sum (make_args (affine a0 as xs)) (Sym x)) xs = as"
    unfolding c using term_sum_distinct [OF assms(2,1)] by (simp add: coeff_sum_def)
  then have "map py_float (map (\<lambda>x. coeff_sum (make_args (affine a0 as xs)) (Sym x)) xs)
      = map py_float as" by (simp only:)
  then have "map (\<lambda>x. py_float (coeff_sum (make_args (affine a0 as xs)) (Sym x))) xs
      = map py_float as" by (simp only: map_map comp_def)
  moreover have "coeff_sum (make_args (affine a0 as xs)) (Number 1) = a0"
    unfolding c by (simp add: coeff_sum_def term_sum_One)
  ultimately show ?thesis using lin_expr_coeffs_simple [OF s f'] by simp
qed

lemma lin_expr_coeffs_affine_binary64:
  assumes "distinct xs" and "length as = length xs" and "list_all binary64 (a0 # as)"
  shows "lin_expr_coeffs (affine a0 as xs) xs = Inr (map Finite as, Finite a0)"
  using lin_expr_coeffs_affine [OF assms(1,2), of a0] assms(3)
  by (simp add: map_py_float_binary64 py_float_binary64)

text \<open>
  C1, as it is worded: the coefficients and the constant come back as they were given.
  The results are floats, and a third is not one: on \<open>2/3 + (1/3)*x\<close> the call returns the
  floats nearest to \<open>1/3\<close> and \<open>2/3\<close>, which are \<open>6004799503160661 / 2^54\<close> and
  \<open>6004799503160661 / 2^53\<close>.
\<close>

theorem lin_expr_coeffs_affine_exact_counterexample:
  "distinct xyz \<and> length [1 / 3, 0, 0 :: rat] = length xyz
   \<and> lin_expr_coeffs (affine (2 / 3) [1 / 3, 0, 0] xyz) xyz
       = Inr ([Finite (6004799503160661 / 18014398509481984), Finite 0, Finite 0],
              Finite (6004799503160661 / 9007199254740992))
   \<and> lin_expr_coeffs (affine (2 / 3) [1 / 3, 0, 0] xyz) xyz
       \<noteq> Inr (map Finite [1 / 3, 0, 0], Finite (2 / 3))"
  by code_simp

text \<open>
  C1, amended. For distinct variables \<open>x1, ..., xn\<close> and rational numbers \<open>a0, ..., an\<close>,
  \<open>lin_expr_coeffs\<close> on \<open>a0 + a1*x1 + ... + an*xn\<close> and \<open>[x1, ..., xn]\<close> returns the floats
  \<open>[float(a1), ..., float(an)]\<close> and \<open>float(a0)\<close>, each the binary64 number nearest to the
  coefficient; when every coefficient is a binary64 number, the result is the coefficients
  \<open>[a1, ..., an]\<close> and the constant \<open>a0\<close> themselves.
\<close>

theorem lin_expr_coeffs_affine_float:
  "distinct xs \<and> length as = length xs \<longrightarrow>
   lin_expr_coeffs (affine a0 as xs) xs = Inr (map py_float as, py_float a0)
   \<and> (list_all binary64 (a0 # as) \<longrightarrow>
        lin_expr_coeffs (affine a0 as xs) xs = Inr (map Finite as, Finite a0))"
  using lin_expr_coeffs_affine [of xs as a0] lin_expr_coeffs_affine_binary64 [of xs as a0]
  by blast

theorem lin_expr_coeffs_affine_float_witness:
  "distinct xyz \<and> length [3, - (9 / 2), 1 :: rat] = length xyz
   \<and> list_all binary64 (float_1_2 # [3, - (9 / 2), 1])
   \<and> affine float_1_2 [3, - (9 / 2), 1] xyz =
       Add [Number float_1_2, Sym (Symbol ''z''), Mul [Number (- (9 / 2)), Sym (Symbol ''y'')],
            Mul [Number 3, Sym (Symbol ''x'')]]
   \<and> lin_expr_coeffs (affine float_1_2 [3, - (9 / 2), 1] xyz) xyz
       = Inr (map py_float [3, - (9 / 2), 1], py_float float_1_2)
   \<and> lin_expr_coeffs (affine float_1_2 [3, - (9 / 2), 1] xyz) xyz
       = Inr (map Finite [3, - (9 / 2), 1], Finite float_1_2)"
proof -
  have h: "distinct xyz \<and> length [3, - (9 / 2), 1 :: rat] = length xyz" by code_simp
  have b: "list_all binary64 (float_1_2 # [3, - (9 / 2), 1])" by code_simp
  have e: "affine float_1_2 [3, - (9 / 2), 1] xyz =
       Add [Number float_1_2, Sym (Symbol ''z''), Mul [Number (- (9 / 2)), Sym (Symbol ''y'')],
            Mul [Number 3, Sym (Symbol ''x'')]]" by code_simp
  from lin_expr_coeffs_affine_float [of xyz "[3, - (9 / 2), 1]" float_1_2] h b e
  show ?thesis by blast
qed
section \<open>The objective\<close>

lemma prepare_objective_cases:
  "prepare_objective_for_sdp e vs d =
     (if lower d = ''max'' \<or> lower d = ''maximize''
      then coeffs_of (lin_expr_coeffs (mul (Number (- 1)) e) vs)
      else if lower d = ''min'' \<or> lower d = ''minimize''
      then coeffs_of (lin_expr_coeffs e vs)
      else Inl (ValueError msg_objective_type))"
  by (simp add: prepare_objective_for_sdp_def Let_def)

lemma float_literals:
  "py_float (6 / 5) = Finite float_1_2"
  "py_float (17 / 5) = Finite float_3_4"
  by code_simp+

lemma objective_example_values:
  "prepare_objective_for_sdp objective_example xyz ''maximize'' = Inr [Finite (- 1), Finite float_3_4, Finite 0]"
  "prepare_objective_for_sdp objective_example xyz ''minimize'' = Inr [Finite 1, Finite (- float_3_4), Finite 0]"
  "prepare_objective_for_sdp objective_example xyz ''MAX'' = Inr [Finite (- 1), Finite float_3_4, Finite 0]"
  "prepare_objective_for_sdp objective_example xyz ''Min'' = Inr [Finite 1, Finite (- float_3_4), Finite 0]"
  by code_simp+

text \<open>
  C9. The direction is compared after \<open>lower()\<close>: \<open>max\<close> and \<open>maximize\<close> extract the
  coefficients of \<open>-1 * objective_func\<close>, \<open>min\<close> and \<open>minimize\<close> those of the objective
  itself, and every other text is a \<open>ValueError\<close>. For \<open>1.2 + x - 3.4*y\<close> over
  \<open>[x, y, z]\<close>, maximizing gives the floats \<open>[-1.0, 3.4, 0.0]\<close> and minimizing
  \<open>[1.0, -3.4, 0.0]\<close>, where \<open>1.2\<close> and \<open>3.4\<close> are the floats nearest to \<open>6/5\<close> and \<open>17/5\<close>.
\<close>

theorem prepare_objective_for_sdp_direction:
  "(lower d = ''max'' \<or> lower d = ''maximize'' \<longrightarrow>
      prepare_objective_for_sdp e vs d = coeffs_of (lin_expr_coeffs (mul (Number (- 1)) e) vs))
   \<and> (lower d = ''min'' \<or> lower d = ''minimize'' \<longrightarrow>
      prepare_objective_for_sdp e vs d = coeffs_of (lin_expr_coeffs e vs))
   \<and> (lower d \<notin> {''max'', ''maximize'', ''min'', ''minimize''} \<longrightarrow>
      prepare_objective_for_sdp e vs d = Inl (ValueError msg_objective_type))
   \<and> prepare_objective_for_sdp objective_example xyz ''maximize'' = Inr [Finite (- 1), Finite float_3_4, Finite 0]
   \<and> prepare_objective_for_sdp objective_example xyz ''minimize'' = Inr [Finite 1, Finite (- float_3_4), Finite 0]
   \<and> prepare_objective_for_sdp objective_example xyz ''MAX'' = Inr [Finite (- 1), Finite float_3_4, Finite 0]
   \<and> prepare_objective_for_sdp objective_example xyz ''Min'' = Inr [Finite 1, Finite (- float_3_4), Finite 0]
   \<and> py_float (6 / 5) = Finite float_1_2 \<and> py_float (17 / 5) = Finite float_3_4"
  unfolding objective_example_values float_literals
  by (simp add: prepare_objective_cases)

theorem prepare_objective_for_sdp_direction_witness:
  "lower ''Maximize'' = ''maximize''
   \<and> prepare_objective_for_sdp objective_example xyz ''Maximize''
       = coeffs_of (lin_expr_coeffs (mul (Number (- 1)) objective_example) xyz)
   \<and> lower ''MIN'' = ''min''
   \<and> prepare_objective_for_sdp objective_example xyz ''MIN''
       = coeffs_of (lin_expr_coeffs objective_example xyz)
   \<and> lower ''largest'' \<notin> {''max'', ''maximize'', ''min'', ''minimize''}
   \<and> prepare_objective_for_sdp objective_example xyz ''largest'' = Inl (ValueError msg_objective_type)"
proof -
  have a: "lower ''Maximize'' = ''maximize''" by code_simp
  have b: "lower ''MIN'' = ''min''" by code_simp
  have c: "lower ''largest'' \<notin> {''max'', ''maximize'', ''min'', ''minimize''}" by code_simp
  from prepare_objective_for_sdp_direction [of "''Maximize''" objective_example xyz]
       prepare_objective_for_sdp_direction [of "''MIN''" objective_example xyz]
       prepare_objective_for_sdp_direction [of "''largest''" objective_example xyz]
       a b c
  show ?thesis by simp
qed

section \<open>Extraction from a matrix\<close>

lemma lin_expr_coeffs_error:
  "lin_expr_coeffs e vs = Inl err \<Longrightarrow> err = NonLinearExpressionError msg_linear_expr"
  by (auto simp: lin_expr_coeffs_def Let_def split: if_splits)

lemma for_elem_fails:
  "(i, j) \<in> set elems \<Longrightarrow> lin_expr_coeffs (entry lm i j) vs = Inl err \<Longrightarrow>
   for_elem lm vs elems st = Inl (NonLinearMatrixError msg_linear_matrix)"
proof (induction elems arbitrary: st)
  case Nil
  then show ?case by simp
next
  case (Cons elem elems)
  obtain cs ks where st: "st = (cs, ks)" by (cases st)
  show ?case
  proof (cases "lin_expr_coeffs (entry lm (fst elem) (snd elem)) vs")
    case (Inl e)
    with lin_expr_coeffs_error [OF Inl] show ?thesis by (simp add: st)
  next
    case (Inr r)
    with Cons.prems have "(i, j) \<in> set elems" by auto
    from Cons.IH [OF this Cons.prems(2)] Inr show ?thesis
      by (simp add: st split: prod.splits)
  qed
qed

lemma set_all_cells: "set (all_cells lm) = {(i, j). i < rows lm \<and> j < cols lm}"
  by (auto simp: all_cells_def)

lemma lm_sym_to_coeffs_fails:
  assumes "i < rows M" and "j < cols M" and "lin_expr_coeffs (entry M i j) vs = Inl err"
  shows "lm_sym_to_coeffs M vs = Inl (NonLinearMatrixError msg_linear_matrix)"
proof -
  have "(i, j) \<in> set (all_cells M)" using assms(1,2) by (simp add: set_all_cells)
  from for_elem_fails [OF this assms(3)] show ?thesis
    by (simp add: lm_sym_to_coeffs_def Let_def)
qed

text \<open>
  C8. When \<open>lin_expr_coeffs\<close> fails on some cell of the matrix, \<open>lm_sym_to_coeffs\<close> ends
  with \<open>NonLinearMatrixError\<close>: the result is the error, no array is returned.
\<close>

theorem lm_sym_to_coeffs_nonlinear_cell:
  "i < rows M \<and> j < cols M \<and> lin_expr_coeffs (entry M i j) vs = Inl err
   \<longrightarrow> lm_sym_to_coeffs M vs = Inl (NonLinearMatrixError msg_linear_matrix)"
  using lm_sym_to_coeffs_fails by blast

theorem lm_sym_to_coeffs_nonlinear_cell_witness:
  "1 < rows nonlinear_example \<and> 1 < cols nonlinear_example
   \<and> lin_expr_coeffs (entry nonlinear_example 1 1) xyz = Inl (NonLinearExpressionError msg_linear_expr)
   \<and> lm_sym_to_coeffs nonlinear_example xyz = Inl (NonLinearMatrixError msg_linear_matrix)"
proof -
  have h: "1 < rows nonlinear_example" "1 < cols nonlinear_example"
    "lin_expr_coeffs (entry nonlinear_example 1 1) xyz = Inl (NonLinearExpressionError msg_linear_expr)"
    by code_simp+
  with lm_sym_to_coeffs_nonlinear_cell [of 1 nonlinear_example 1 xyz "NonLinearExpressionError msg_linear_expr"]
  show ?thesis by simp
qed

lemma rows_matrix_of: "rows (matrix_of r c f) = r"
  by (simp add: rows_def matrix_of_def)

lemma cols_matrix_of: "cols (matrix_of r c f) = (if r = 0 then 0 else c)"
  by (cases r) (simp_all add: cols_def matrix_of_def upt_conv_Cons del: upt_Suc)

lemma entry_matrix_of: "i < r \<Longrightarrow> j < c \<Longrightarrow> entry (matrix_of r c f) i j = f (i, j)"
  by (simp add: entry_def matrix_of_def)

lemma matrix_of_cong:
  "(\<And>i j. i < r \<Longrightarrow> j < c \<Longrightarrow> f (i, j) = g (i, j)) \<Longrightarrow> matrix_of r c f = matrix_of r c g"
  by (simp add: matrix_of_def)

lemma is_matrix_matrix_of: "is_matrix (matrix_of r c f)"
  by (simp add: is_matrix_def cols_matrix_of list_all_iff) (auto simp: matrix_of_def)

lemma matrix_of_entries:
  assumes "is_matrix M"
  shows "M = matrix_of (rows M) (cols M) (\<lambda>(i, j). entry M i j)"
proof -
  have len: "\<forall>r\<in>set M. length r = cols M"
    using assms by (simp add: is_matrix_def list_all_iff)
  show ?thesis
    unfolding matrix_of_def rows_def
  proof (rule nth_equalityI)
    show "length M = length (map (\<lambda>i. map (\<lambda>j. case (i, j) of (i, j) \<Rightarrow> entry M i j) [0..<cols M]) [0..<length M])"
      by simp
  next
    fix i assume i: "i < length M"
    then have "length (M ! i) = cols M" using len by simp
    then have "M ! i = map (\<lambda>j. M ! i ! j) [0 ..< cols M]"
      by (metis map_nth)
    then show "M ! i = map (\<lambda>i. map (\<lambda>j. case (i, j) of (i, j) \<Rightarrow> entry M i j) [0..<cols M]) [0..<length M] ! i"
      using i by (simp add: entry_def)
  qed
qed

lemma list_update_map_upt:
  "i < n \<Longrightarrow> (map f [0 ..< n])[i := y] = map (f(i := y)) [0 ..< n]"
  by (rule nth_equalityI) (auto simp: nth_list_update)

lemma set_entry_matrix_of:
  assumes "i < r" and "j < c"
  shows "set_entry (matrix_of r c f) (i, j) v = matrix_of r c (f((i, j) := v))"
proof -
  have "(map (\<lambda>j. f (i, j)) [0 ..< c])[j := v] = map (\<lambda>j'. (f((i, j) := v)) (i, j')) [0 ..< c]"
    using assms(2) by (subst list_update_map_upt) (auto simp: fun_upd_def)
  then show ?thesis
    using assms(1) unfolding set_entry_def matrix_of_def
    by (simp add: list_update_map_upt)
qed

lemma foldl_update_prefix:
  "k \<le> length cs \<Longrightarrow>
   foldl (\<lambda>cs n. cs[n := u n (cs ! n)]) cs [0 ..< k] =
   map (\<lambda>n. if n < k then u n (cs ! n) else cs ! n) [0 ..< length cs]"
proof (induction k)
  case 0
  show ?case by (simp add: map_nth)
next
  case (Suc k)
  then have k: "k < length cs" by simp
  define F where "F = (\<lambda>(cs :: 'a list) n. cs[n := u n (cs ! n)])"
  define P where "P = map (\<lambda>n. if n < k then u n (cs ! n) else cs ! n) [0 ..< length cs]"
  have ih: "foldl F cs [0 ..< k] = P"
    unfolding F_def P_def by (rule Suc.IH) (use k in simp)
  have Pk: "P ! k = cs ! k" and lP: "length P = length cs"
    using k by (simp_all add: P_def)
  have "foldl F cs [0 ..< Suc k] = F (foldl F cs [0 ..< k]) k" by simp
  also have "\<dots> = P[k := u k (cs ! k)]" unfolding ih by (simp add: F_def Pk)
  also have "\<dots> = map (\<lambda>n. if n < Suc k then u n (cs ! n) else cs ! n) [0 ..< length cs]"
  proof (rule nth_equalityI)
    show "length (P[k := u k (cs ! k)]) =
        length (map (\<lambda>n. if n < Suc k then u n (cs ! n) else cs ! n) [0 ..< length cs])"
      by (simp add: lP)
  next
    fix i assume "i < length (P[k := u k (cs ! k)])"
    then have i: "i < length cs" by (simp add: lP)
    show "P[k := u k (cs ! k)] ! i =
        map (\<lambda>n. if n < Suc k then u n (cs ! n) else cs ! n) [0 ..< length cs] ! i"
    proof (cases "i = k")
      case True
      then show ?thesis using i by (simp add: lP)
    next
      case False
      then show ?thesis using i by (auto simp: P_def less_Suc_eq)
    qed
  qed
  finally show ?case unfolding F_def .
qed

lemma foldl_update_all:
  "foldl (\<lambda>cs n. cs[n := u n (cs ! n)]) (map h [0 ..< N]) [0 ..< N] = map (\<lambda>n. u n (h n)) [0 ..< N]"
  using foldl_update_prefix [of N "map h [0 ..< N]" u] by simp


text \<open>The loop over the cells, on arrays given by their entries.\<close>

lemma for_elem_ok:
  "\<forall>p\<in>set elems. fst p < r \<and> snd p < c
      \<and> lin_expr_coeffs (entry lm (fst p) (snd p)) vs = Inr (F p, G p) \<Longrightarrow>
   for_elem lm vs elems (map (\<lambda>n. matrix_of r c (h n)) [0 ..< length vs], matrix_of r c g) =
     Inr (map (\<lambda>n. matrix_of r c (\<lambda>p. if p \<in> set elems then F p ! n else h n p)) [0 ..< length vs],
          matrix_of r c (\<lambda>p. if p \<in> set elems then G p else g p))"
proof (induction elems arbitrary: h g)
  case Nil
  show ?case by simp
next
  case (Cons elem elems)
  obtain i j where e: "elem = (i, j)" by (cases elem)
  from Cons.prems have ij: "i < r" "j < c"
    and le: "lin_expr_coeffs (entry lm i j) vs = Inr (F (i, j), G (i, j))" by (simp_all add: e)
  define h' where "h' = (\<lambda>n. (h n)((i, j) := F (i, j) ! n))"
  define g' where "g' = g((i, j) := G (i, j))"
  have up: "foldl (\<lambda>cs n. cs[n := set_entry (cs ! n) (i, j) (F (i, j) ! n)])
        (map (\<lambda>n. matrix_of r c (h n)) [0 ..< length vs]) [0 ..< length vs]
      = map (\<lambda>n. matrix_of r c (h' n)) [0 ..< length vs]"
    unfolding h'_def
    using foldl_update_all [of "\<lambda>n A. set_entry A (i, j) (F (i, j) ! n)" "\<lambda>n. matrix_of r c (h n)" "length vs"]
    by (simp add: set_entry_matrix_of [OF ij])
  have cu: "set_entry (matrix_of r c g) (i, j) (G (i, j)) = matrix_of r c g'"
    unfolding g'_def by (rule set_entry_matrix_of [OF ij])
  have rest: "\<forall>p\<in>set elems. fst p < r \<and> snd p < c
      \<and> lin_expr_coeffs (entry lm (fst p) (snd p)) vs = Inr (F p, G p)"
    using Cons.prems by simp
  have f1: "\<And>n. (\<lambda>p. if p \<in> set elems then F p ! n else h' n p)
      = (\<lambda>p. if p \<in> set (elem # elems) then F p ! n else h n p)"
    by (auto simp: h'_def e fun_eq_iff)
  have f2: "(\<lambda>p. if p \<in> set elems then G p else g' p)
      = (\<lambda>p. if p \<in> set (elem # elems) then G p else g p)"
    by (auto simp: g'_def e fun_eq_iff)
  have "for_elem lm vs (elem # elems) (map (\<lambda>n. matrix_of r c (h n)) [0 ..< length vs], matrix_of r c g)
      = for_elem lm vs elems (map (\<lambda>n. matrix_of r c (h' n)) [0 ..< length vs], matrix_of r c g')"
    using le by (simp add: e up cu)
  also note Cons.IH [OF rest, of h' g']
  finally show ?case unfolding f1 f2 .
qed

lemma lm_sym_to_coeffs_ok:
  assumes "\<And>i j. i < rows M \<Longrightarrow> j < cols M \<Longrightarrow>
      lin_expr_coeffs (entry M i j) vs = Inr (F (i, j), G (i, j))"
  shows "lm_sym_to_coeffs M vs =
     Inr (map (\<lambda>n. matrix_of (rows M) (cols M) (\<lambda>p. F p ! n)) [0 ..< length vs],
          matrix_of (rows M) (cols M) G)"
proof -
  let ?r = "rows M" and ?c = "cols M"
  have z: "zeros ?r ?c = matrix_of ?r ?c (\<lambda>p. Finite 0)"
    by (simp add: zeros_def matrix_of_def map_replicate_const)
  have cells: "\<forall>p\<in>set (all_cells M). fst p < ?r \<and> snd p < ?c
      \<and> lin_expr_coeffs (entry M (fst p) (snd p)) vs = Inr (F p, G p)"
    using assms by (auto simp: set_all_cells)
  have m1: "\<And>n. matrix_of ?r ?c (\<lambda>p. if p \<in> set (all_cells M) then F p ! n else Finite 0)
      = matrix_of ?r ?c (\<lambda>p. F p ! n)"
    by (rule matrix_of_cong) (simp add: set_all_cells)
  have m2: "matrix_of ?r ?c (\<lambda>p. if p \<in> set (all_cells M) then G p else Finite 0) = matrix_of ?r ?c G"
    by (rule matrix_of_cong) (simp add: set_all_cells)
  show ?thesis
    unfolding lm_sym_to_coeffs_def Let_def z
    using for_elem_ok [of "all_cells M" ?r ?c M vs F G "\<lambda>n p. Finite 0" "\<lambda>p. Finite 0", OF cells]
    by (simp add: m1 m2)
qed

lemma matrix_add_matrix_of:
  "matrix_add (matrix_of r c f) (matrix_of r c g) = Inr (matrix_of r c (\<lambda>p. add (f p) (g p)))"
proof -
  have "shape (matrix_of r c f) = shape (matrix_of r c g)"
    by (simp add: shape_def rows_matrix_of cols_matrix_of)
  then show ?thesis
    by (simp add: matrix_add_def) (simp add: matrix_of_def zip_map_map zip_same_conv_map comp_def)
qed

lemma scalar_mul_matrix_of:
  "scalar_mul x (matrix_of r c f) = matrix_of r c (\<lambda>p. mul x (f p))"
  by (simp add: scalar_mul_def matrix_of_def comp_def)

lemma ImmutableMatrix_matrix_of:
  "ImmutableMatrix (matrix_of r c f) = matrix_of r c (\<lambda>p. Number (f p))"
  by (simp add: ImmutableMatrix_def matrix_of_def comp_def)

lemma matrix_of_cols: "matrix_of r (if r = 0 then 0 else c) f = matrix_of r c f"
  by (simp add: matrix_of_def)

lemma for_var_matrix_of:
  "\<forall>q\<in>set ps. fst q < length Cs \<and> Cs ! fst q = matrix_of r c (cf (fst q)) \<Longrightarrow>
   for_var Cs ps (matrix_of r c f) =
     Inr (matrix_of r c
       (\<lambda>p. foldl (\<lambda>e q. add e (mul (Sym (snd q)) (Number (cf (fst q) p)))) (f p) ps))"
proof (induction ps arbitrary: f)
  case Nil
  show ?case by simp
next
  case (Cons q ps)
  obtain n x where q: "q = (n, x)" by (cases q)
  from Cons.prems have n: "n < length Cs" "Cs ! n = matrix_of r c (cf n)" by (simp_all add: q)
  have step: "matrix_add (matrix_of r c f) (scalar_mul (Sym x) (ImmutableMatrix (Cs ! n)))
      = Inr (matrix_of r c (\<lambda>p. add (f p) (mul (Sym x) (Number (cf n p)))))"
    by (simp add: n(2) ImmutableMatrix_matrix_of scalar_mul_matrix_of matrix_add_matrix_of)
  have rest: "\<forall>q\<in>set ps. fst q < length Cs \<and> Cs ! fst q = matrix_of r c (cf (fst q))"
    using Cons.prems by simp
  show ?case
    using n(1) by (simp add: q step Cons.IH [OF rest])
qed

lemma foldl_affine:
  "foldl (\<lambda>e q. add e (mul (Sym (snd q)) (Number (cf (fst q) p)))) (Number a0) (zip [0 ..< N] xs)
     = affine a0 (map (\<lambda>n. cf n p) [0 ..< N]) xs"
proof -
  have "zip (map (\<lambda>n. cf n p) [0 ..< N]) xs = map (\<lambda>q. (cf (fst q) p, snd q)) (zip [0 ..< N] xs)"
    by (simp add: zip_map1 case_prod_unfold)
  then show ?thesis
    by (simp add: affine_def foldl_map mul_Sym_Number case_prod_unfold)
qed

lemma lm_coeffs_to_sym_matrix_of:
  assumes "length Cs = length xs"
    and "\<forall>n<length xs. Cs ! n = matrix_of r c (cf n)"
  shows "lm_coeffs_to_sym (Cs, matrix_of r c k) xs =
     Inr (matrix_of r c (\<lambda>p. affine (k p) (map (\<lambda>n. cf n p) [0 ..< length xs]) xs))"
proof -
  have pre: "\<forall>q\<in>set (zip [0 ..< length xs] xs). fst q < length Cs \<and> Cs ! fst q = matrix_of r c (cf (fst q))"
    using assms by (auto dest!: set_zip_leftD)
  show ?thesis
    unfolding lm_coeffs_to_sym_def
    by (simp add: ImmutableMatrix_matrix_of for_var_matrix_of [OF pre] foldl_affine)
qed

lemma map_matrix_of: "map (map g) (matrix_of r c f) = matrix_of r c (\<lambda>p. g (f p))"
  by (simp add: matrix_of_def comp_def)

lemma lm_round_trip:
  assumes d: "distinct xs" and l: "length Cs = length xs" and K: "is_matrix K"
    and C: "\<forall>C\<in>set Cs. is_matrix C \<and> shape C = shape K"
  shows "\<exists>M. lm_coeffs_to_sym (Cs, K) xs = Inr M
     \<and> lm_sym_to_coeffs M xs = Inr (map (map (map py_float)) Cs, map (map py_float) K)"
proof -
  let ?r = "rows K" and ?c = "cols K" and ?N = "length xs"
  define k where "k = (\<lambda>(i, j). entry K i j)"
  define cf where "cf = (\<lambda>n (i, j). entry (Cs ! n) i j)"
  define M where "M = matrix_of ?r ?c (\<lambda>p. affine (k p) (map (\<lambda>n. cf n p) [0 ..< ?N]) xs)"
  have Km: "K = matrix_of ?r ?c k" unfolding k_def by (rule matrix_of_entries [OF K])
  have Cm: "\<forall>n<?N. Cs ! n = matrix_of ?r ?c (cf n)"
  proof (intro allI impI)
    fix n assume "n < ?N"
    then have "Cs ! n \<in> set Cs" using l by simp
    with C have "is_matrix (Cs ! n)" "rows (Cs ! n) = ?r" "cols (Cs ! n) = ?c"
      by (auto simp: shape_def)
    with matrix_of_entries [of "Cs ! n"] show "Cs ! n = matrix_of ?r ?c (cf n)"
      by (simp add: cf_def)
  qed
  have to: "lm_coeffs_to_sym (Cs, K) xs = Inr M"
    unfolding M_def using lm_coeffs_to_sym_matrix_of [OF l Cm, of k] Km by simp
  have rM: "rows M = ?r" by (simp add: M_def rows_matrix_of)
  have cM: "cols M = (if ?r = 0 then 0 else ?c)" by (simp add: M_def cols_matrix_of)
  have cell: "\<And>i j. i < rows M \<Longrightarrow> j < cols M \<Longrightarrow>
      lin_expr_coeffs (entry M i j) xs
        = Inr (map (\<lambda>n. py_float (cf n (i, j))) [0 ..< ?N], py_float (k (i, j)))"
  proof -
    fix i j assume "i < rows M" "j < cols M"
    then have "i < ?r" "j < ?c" using rM cM by (auto split: if_splits)
    then have "entry M i j = affine (k (i, j)) (map (\<lambda>n. cf n (i, j)) [0 ..< ?N]) xs"
      by (simp add: M_def entry_matrix_of)
    then show "lin_expr_coeffs (entry M i j) xs
        = Inr (map (\<lambda>n. py_float (cf n (i, j))) [0 ..< ?N], py_float (k (i, j)))"
      using lin_expr_coeffs_affine [OF d, of "map (\<lambda>n. cf n (i, j)) [0 ..< ?N]"]
      by (simp add: comp_def)
  qed
  have "lm_sym_to_coeffs M xs =
      Inr (map (\<lambda>n. matrix_of ?r ?c (\<lambda>p. map (\<lambda>n. py_float (cf n p)) [0 ..< ?N] ! n)) [0 ..< ?N],
           matrix_of ?r ?c (\<lambda>p. py_float (k p)))"
    using lm_sym_to_coeffs_ok [of M xs "\<lambda>p. map (\<lambda>n. py_float (cf n p)) [0 ..< ?N]" "\<lambda>p. py_float (k p)", OF cell]
    unfolding rM cM matrix_of_cols by simp
  also have "map (\<lambda>n. matrix_of ?r ?c (\<lambda>p. map (\<lambda>n. py_float (cf n p)) [0 ..< ?N] ! n)) [0 ..< ?N]
      = map (map (map py_float)) Cs"
  proof (rule nth_equalityI)
    show "length (map (\<lambda>n. matrix_of ?r ?c (\<lambda>p. map (\<lambda>n. py_float (cf n p)) [0 ..< ?N] ! n)) [0 ..< ?N])
        = length (map (map (map py_float)) Cs)"
      using l by simp
  next
    fix n assume "n < length (map (\<lambda>n. matrix_of ?r ?c (\<lambda>p. map (\<lambda>n. py_float (cf n p)) [0 ..< ?N] ! n)) [0 ..< ?N])"
    then have n: "n < ?N" by simp
    then have "map (map py_float) (Cs ! n) = matrix_of ?r ?c (\<lambda>p. py_float (cf n p))"
      using Cm by (simp add: map_matrix_of)
    then show "map (\<lambda>n. matrix_of ?r ?c (\<lambda>p. map (\<lambda>n. py_float (cf n p)) [0 ..< ?N] ! n)) [0 ..< ?N] ! n
        = map (map (map py_float)) Cs ! n"
      using n l by simp
  qed
  also have "matrix_of ?r ?c (\<lambda>p. py_float (k p)) = map (map py_float) K"
    using Km map_matrix_of [of py_float ?r ?c k] by simp
  finally have "lm_sym_to_coeffs M xs = Inr (map (map (map py_float)) Cs, map (map py_float) K)" .
  with to show ?thesis by blast
qed

lemma map_matrix_binary64:
  "list_all (list_all binary64) A \<Longrightarrow> map (map py_float) A = map (map Finite) A"
  by (induction A) (simp_all add: map_py_float_binary64)

lemma map_matrices_binary64:
  "list_all (list_all (list_all binary64)) Cs \<Longrightarrow>
   map (map (map py_float)) Cs = map (map (map Finite)) Cs"
  by (induction Cs) (simp_all add: map_matrix_binary64)

text \<open>
  C4, as it is worded: the arrays that come back are the matrices that went in. The arrays
  hold floats; with the coefficient \<open>1/3\<close> and the constant \<open>2/3\<close> of a 1 x 1 matrix, what
  comes back is the floats nearest to them.
\<close>

theorem lm_sym_to_coeffs_lm_coeffs_to_sym_counterexample:
  "lm_coeffs_to_sym ([[[1 / 3]]], [[2 / 3]]) [Symbol ''x'']
     = Inr [[Add [Number (2 / 3), Mul [Number (1 / 3), Sym (Symbol ''x'')]]]]
   \<and> lm_sym_to_coeffs [[Add [Number (2 / 3), Mul [Number (1 / 3), Sym (Symbol ''x'')]]]] [Symbol ''x'']
     = Inr ([[[Finite (6004799503160661 / 18014398509481984)]]],
            [[Finite (6004799503160661 / 9007199254740992)]])
   \<and> lm_sym_to_coeffs [[Add [Number (2 / 3), Mul [Number (1 / 3), Sym (Symbol ''x'')]]]] [Symbol ''x'']
     \<noteq> Inr (map (map (map Finite)) [[[1 / 3]]], map (map Finite) [[2 / 3]])"
  by code_simp

text \<open>
  C4, amended. For distinct variables, as many coefficient matrices as variables and a
  constant matrix, all of one shape and of rational numbers, \<open>lm_coeffs_to_sym\<close> returns a
  symbolic matrix on which \<open>lm_sym_to_coeffs\<close> returns the matrices again with every entry
  \<open>a\<close> replaced by \<open>float(a)\<close>; when all the entries are binary64 numbers, as they are in
  arrays of floats, these are the coefficient matrices and the constant matrix themselves.
\<close>

theorem lm_sym_to_coeffs_lm_coeffs_to_sym_float:
  "distinct xs \<and> length Cs = length xs \<and> is_matrix K
     \<and> (\<forall>C\<in>set Cs. is_matrix C \<and> shape C = shape K)
   \<longrightarrow> (\<exists>M. lm_coeffs_to_sym (Cs, K) xs = Inr M
          \<and> lm_sym_to_coeffs M xs = Inr (map (map (map py_float)) Cs, map (map py_float) K)
          \<and> (list_all (list_all (list_all binary64)) (K # Cs) \<longrightarrow>
               lm_sym_to_coeffs M xs = Inr (map (map (map Finite)) Cs, map (map Finite) K)))"
proof (intro impI)
  assume a: "distinct xs \<and> length Cs = length xs \<and> is_matrix K
     \<and> (\<forall>C\<in>set Cs. is_matrix C \<and> shape C = shape K)"
  then obtain M where M: "lm_coeffs_to_sym (Cs, K) xs = Inr M"
    "lm_sym_to_coeffs M xs = Inr (map (map (map py_float)) Cs, map (map py_float) K)"
    using lm_round_trip [of xs Cs K] by blast
  have "list_all (list_all (list_all binary64)) (K # Cs) \<longrightarrow>
      lm_sym_to_coeffs M xs = Inr (map (map (map Finite)) Cs, map (map Finite) K)"
    using M(2) by (simp add: map_matrix_binary64 map_matrices_binary64)
  with M show "\<exists>M. lm_coeffs_to_sym (Cs, K) xs = Inr M
          \<and> lm_sym_to_coeffs M xs = Inr (map (map (map py_float)) Cs, map (map py_float) K)
          \<and> (list_all (list_all (list_all binary64)) (K # Cs) \<longrightarrow>
               lm_sym_to_coeffs M xs = Inr (map (map (map Finite)) Cs, map (map Finite) K))"
    by blast
qed

theorem lm_sym_to_coeffs_lm_coeffs_to_sym_float_witness:
  "distinct xyz \<and> length test_coeffs = length xyz \<and> is_matrix test_consts
   \<and> list_all (\<lambda>C. is_matrix C \<and> shape C = shape test_consts) test_coeffs
   \<and> list_all (list_all (list_all binary64)) (test_consts # test_coeffs)
   \<and> (\<exists>M. lm_coeffs_to_sym (test_coeffs, test_consts) xyz = Inr M
          \<and> lm_sym_to_coeffs M xyz
              = Inr (map (map (map py_float)) test_coeffs, map (map py_float) test_consts)
          \<and> lm_sym_to_coeffs M xyz
              = Inr (map (map (map Finite)) test_coeffs, map (map Finite) test_consts))"
proof -
  have h: "distinct xyz" "length test_coeffs = length xyz" "is_matrix test_consts"
    "list_all (\<lambda>C. is_matrix C \<and> shape C = shape test_consts) test_coeffs"
    "list_all (list_all (list_all binary64)) (test_consts # test_coeffs)"
    by code_simp+
  from h(4) have "\<forall>C\<in>set test_coeffs. is_matrix C \<and> shape C = shape test_consts"
    by (simp add: list_all_iff)
  with lm_sym_to_coeffs_lm_coeffs_to_sym_float [of xyz test_coeffs test_consts] h show ?thesis by blast
qed

end
